theory Spec2Isabelle
  imports Main "HOL-Library.Sublist"
begin

section \<open>The substitution engine of \<^verbatim>\<open>scripts/update_positioning.py\<close>\<close>

text \<open>
  A Python \<^verbatim>\<open>str\<close> is a finite sequence of code points.  The two string primitives the
  engine uses, \<^verbatim>\<open>old in text\<close> and \<^verbatim>\<open>text.replace(old, new)\<close>, compare code points for
  equality only, so they are embedded over lists of any element type; the engine itself
  is stated over \<^typ>\<open>string\<close>.
\<close>

subsection \<open>Data model\<close>

text \<open>The frozen dataclass \<^verbatim>\<open>Replacement\<close>, fields in declaration order.\<close>

record Replacement =
  old :: string
  new :: string
  label :: string

subsection \<open>String primitives\<close>

text \<open>
  \<^verbatim>\<open>old in text\<close>: is there a position of \<^verbatim>\<open>text\<close> at which \<^verbatim>\<open>old\<close> starts?  The empty
  string starts at every position, also at the end of the text.
\<close>

fun str_in :: "'a list \<Rightarrow> 'a list \<Rightarrow> bool" where
  "str_in pat [] = (pat = [])"
| "str_in pat (c # cs) = (prefix pat (c # cs) \<or> str_in pat cs)"

text \<open>
  \<^verbatim>\<open>text.replace(old, new)\<close> with the default count: a scan from the left.  At a position
  where \<^verbatim>\<open>old\<close> starts, \<^verbatim>\<open>new\<close> is emitted and the scan resumes behind the occurrence
  (occurrences do not overlap); elsewhere the code point is copied.  An empty \<^verbatim>\<open>old\<close>
  matches at every position without consuming anything, so the scan emits \<^verbatim>\<open>new\<close>, copies
  one code point and goes on, and emits \<^verbatim>\<open>new\<close> once more at the end of the text.
\<close>

function str_replace :: "'a list \<Rightarrow> 'a list \<Rightarrow> 'a list \<Rightarrow> 'a list" where
  "str_replace pat sub [] = (if pat = [] then sub else [])"
| "str_replace pat sub (c # cs) =
     (if pat = [] then sub @ c # str_replace pat sub cs
      else if prefix pat (c # cs)
        then sub @ str_replace pat sub (drop (length pat) (c # cs))
        else c # str_replace pat sub cs)"
  by pat_completeness auto
termination
  by (relation "measure (\<lambda>(pat, sub, text). length text)") auto

subsection \<open>\<^verbatim>\<open>apply_replacements\<close>\<close>

text \<open>
  The body of the \<^verbatim>\<open>for\<close> loop, as a recursion over the remaining rules that carries the
  two variables the loop updates: the rebound \<^verbatim>\<open>text\<close> and the list \<^verbatim>\<open>changed_labels\<close>,
  which grows at its end.
\<close>

fun replacements_loop :: "string \<Rightarrow> string list \<Rightarrow> Replacement list \<Rightarrow> string \<times> string list" where
  "replacements_loop text changed_labels [] = (text, changed_labels)"
| "replacements_loop text changed_labels (repl # rest) =
     (if \<not> str_in (old repl) text
        then replacements_loop text changed_labels rest
        else replacements_loop (str_replace (old repl) (new repl) text)
               (changed_labels @ [label repl]) rest)"

text \<open>
  The keyword-only parameter \<^verbatim>\<open>file_label\<close> is accepted and never read.  Nothing in the
  body raises, so the result is a plain pair.
\<close>

definition apply_replacements :: "string \<Rightarrow> Replacement list \<Rightarrow> string \<Rightarrow> string \<times> string list" where
  "apply_replacements text replacements file_label = replacements_loop text [] replacements"

subsection \<open>The same body over Python's list objects\<close>

text \<open>
  Strings and the frozen \<^verbatim>\<open>Replacement\<close> objects cannot be changed; the two lists the body
  handles can: the list of rules it is given by reference, and the list of labels it
  creates.  Here the lists live in a store, addressed by position.  The annotations say
  what each list holds (\<^verbatim>\<open>Iterable[Replacement]\<close>, in every call a list, and
  \<^verbatim>\<open>list[str]\<close>); a list of the other kind where one is expected is a type error,
  \<open>None\<close>.  The body calls nothing that reads or writes a file or prints, so files and
  console are not part of its state.
\<close>

datatype obj = LabelList "string list" | RuleList "Replacement list"

type_synonym addr = nat

type_synonym heap = "obj list"

text \<open>\<^verbatim>\<open>changed_labels.append(x)\<close>: the list object at the address grows in place.\<close>

definition list_append :: "heap \<Rightarrow> addr \<Rightarrow> string \<Rightarrow> heap option" where
  "list_append h a x =
     (if a < length h then
        (case h ! a of
           LabelList items \<Rightarrow> Some (h[a := LabelList (items @ [x])])
         | RuleList rs \<Rightarrow> None)
      else None)"

text \<open>
  The \<^verbatim>\<open>for\<close> loop as the list iterator runs it: a position \<open>i\<close> into the list object
  at \<open>replacements\<close>, read again at every step and compared with the list's current
  length.
\<close>

function heap_loop :: "heap \<Rightarrow> string \<Rightarrow> addr \<Rightarrow> addr \<Rightarrow> nat \<Rightarrow> (string \<times> heap) option" where
  "heap_loop h text changed_labels replacements i =
     (if replacements < length h then
        (case h ! replacements of
           LabelList items \<Rightarrow> None
         | RuleList rs \<Rightarrow>
             if i < length rs then
               (let repl = rs ! i in
                if \<not> str_in (old repl) text
                  then heap_loop h text changed_labels replacements (Suc i)
                  else
                    (case list_append h changed_labels (label repl) of
                       None \<Rightarrow> None
                     | Some h' \<Rightarrow>
                         heap_loop h' (str_replace (old repl) (new repl) text)
                           changed_labels replacements (Suc i)))
             else Some (text, h))
      else None)"
  by pat_completeness auto
termination
  by (relation "measure (\<lambda>(h, text, changed_labels, replacements, i).
        (case h ! replacements of RuleList rs \<Rightarrow> length rs - i | LabelList items \<Rightarrow> 0))")
    (auto simp: list_append_def nth_list_update split: obj.splits if_splits)

declare heap_loop.simps [simp del]

text \<open>
  \<^verbatim>\<open>changed_labels: list[str] = []\<close> creates a new list object, at the first free
  address; the function returns the final text and that address.
\<close>

definition apply_replacements_heap ::
    "heap \<Rightarrow> string \<Rightarrow> addr \<Rightarrow> string \<Rightarrow> ((string \<times> addr) \<times> heap) option" where
  "apply_replacements_heap h text replacements file_label =
     (let changed_labels = length h;
          h0 = h @ [LabelList []]
      in map_option (\<lambda>(text', h'). ((text', changed_labels), h'))
           (heap_loop h0 text changed_labels replacements 0))"

section \<open>The run driver \<^verbatim>\<open>main\<close>\<close>

subsection \<open>Files, console and failures\<close>

text \<open>
  A target is named by its path below the project root, which is also what the reports
  print (\<^verbatim>\<open>path.relative_to(ROOT)\<close>).  A path that is present on disk carries what
  \<^verbatim>\<open>read_text\<close> yields, \<open>None\<close> when reading raises (a directory, no permission, bytes
  that are not UTF-8), and whether \<^verbatim>\<open>write_text\<close> succeeds on it.
\<close>

type_synonym path = string

datatype entry = Entry (text_of: "string option") (writable: bool)

datatype io_error = ReadFailed path | WriteFailed path

text \<open>
  What a run touches: the files, the lines printed so far, the \<^verbatim>\<open>write_text\<close> calls made
  so far (kept so that a write of unchanged content still shows), and the local flag
  \<^verbatim>\<open>any_changed\<close>.
\<close>

record run_state =
  files :: "path \<rightharpoonup> entry"
  console :: "string list"
  written :: "path list"
  any_changed :: bool

text \<open>An exception is never caught: it ends the run in the state reached so far.\<close>

type_synonym 'a outcome = "(io_error \<times> run_state) + 'a"

subsection \<open>Report lines\<close>

text \<open>\<^verbatim>\<open>sep.join(items)\<close>.\<close>

fun str_join :: "'a list \<Rightarrow> 'a list list \<Rightarrow> 'a list" where
  "str_join sep [] = []"
| "str_join sep [x] = x"
| "str_join sep (x # y # ys) = x @ sep @ str_join sep (y # ys)"

definition warn_line :: "path \<Rightarrow> string" where
  "warn_line p = ''[WARN] Missing: '' @ p"

definition ok_line :: "path \<Rightarrow> string" where
  "ok_line p = ''[OK]   '' @ p @ '' (no changes)''"

definition edit_line :: "path \<Rightarrow> string list \<Rightarrow> string" where
  "edit_line p changed = ''[EDIT] '' @ p @ '' -> '' @ str_join '', '' changed"

definition summary_line :: string where
  "summary_line = ''No changes applied.''"

subsection \<open>One pass of the loop over \<^verbatim>\<open>targets.items()\<close>\<close>

text \<open>
  \<open>check\<close> is \<^verbatim>\<open>args.check\<close>.  The file label handed to the engine is the path as a string.
\<close>

definition process_target :: "bool \<Rightarrow> path \<times> Replacement list \<Rightarrow> run_state \<Rightarrow> run_state outcome" where
  "process_target check target st =
     (case target of (p, repls) \<Rightarrow>
        (case files st p of
           None \<Rightarrow> Inr (st\<lparr>console := console st @ [warn_line p]\<rparr>)
         | Some e \<Rightarrow>
             (case text_of e of
                None \<Rightarrow> Inl (ReadFailed p, st)
              | Some original \<Rightarrow>
                  (case apply_replacements original repls p of (updated, changed) \<Rightarrow>
                     if changed = []
                       then Inr (st\<lparr>console := console st @ [ok_line p]\<rparr>)
                       else
                         (let st1 = st\<lparr>any_changed := True,
                                       console := console st @ [edit_line p changed]\<rparr>
                          in if \<not> check
                               then if writable e
                                 then Inr (st1\<lparr>files := (files st1)(p \<mapsto> Entry (Some updated) True),
                                              written := written st1 @ [p]\<rparr>)
                                 else Inl (WriteFailed p, st1)
                               else Inr st1)))))"

fun process_targets :: "bool \<Rightarrow> (path \<times> Replacement list) list \<Rightarrow> run_state \<Rightarrow> run_state outcome" where
  "process_targets check [] st = Inr st"
| "process_targets check (target # rest) st =
     (case process_target check target st of
        Inl failure \<Rightarrow> Inl failure
      | Inr st' \<Rightarrow> process_targets check rest st')"

subsection \<open>\<^verbatim>\<open>main\<close>\<close>

text \<open>
  The table is a parameter: \<open>targets\<close> is \<^verbatim>\<open>targets.items()\<close>, the entries of a dict in
  insertion order, so its paths are pairwise distinct.  The result is the exit status and
  the final state.
\<close>

definition initial_state :: "(path \<rightharpoonup> entry) \<Rightarrow> run_state" where
  "initial_state fs = \<lparr>files = fs, console = [], written = [], any_changed = False\<rparr>"

definition main :: "bool \<Rightarrow> (path \<times> Replacement list) list \<Rightarrow> (path \<rightharpoonup> entry) \<Rightarrow> (int \<times> run_state) outcome" where
  "main check targets fs =
     (case process_targets check targets (initial_state fs) of
        Inl failure \<Rightarrow> Inl failure
      | Inr st \<Rightarrow>
          if check then Inr (0, st)
          else if \<not> any_changed st
            then Inr (0, st\<lparr>console := console st @ [summary_line]\<rparr>)
            else Inr (0, st))"

section \<open>The specification's reading of the engine\<close>

text \<open>
  ``Replace all occurrences of \<open>old\<close> with \<open>new\<close>'', without reference to how a scan finds
  them.  The text is cut at occurrences of \<open>pat\<close>: it is the segments with \<open>pat\<close> between
  them, no segment contains an occurrence, and each cut is made at the first occurrence
  in what is left (a segment followed by all but the last character of \<open>pat\<close> still has
  none), so the occurrences cut out do not overlap.
\<close>

definition cut_at_occurrences :: "'a list \<Rightarrow> 'a list list \<Rightarrow> 'a list \<Rightarrow> bool" where
  "cut_at_occurrences pat segs t \<longleftrightarrow>
     segs \<noteq> [] \<and> t = str_join pat segs
     \<and> (\<forall>s \<in> set segs. \<not> sublist pat s)
     \<and> (\<forall>s \<in> set (butlast segs). \<not> sublist pat (s @ butlast pat))"

text \<open>
  The result has \<open>sub\<close> where each occurrence was.  The empty string occurs at every
  position of a text, the end included, and what lies between two neighbouring
  occurrences is one character.
\<close>

definition all_replaced :: "'a list \<Rightarrow> 'a list \<Rightarrow> 'a list \<Rightarrow> 'a list \<Rightarrow> bool" where
  "all_replaced pat sub t result \<longleftrightarrow>
     (if pat = [] then result = str_join sub ([] # map (\<lambda>c. [c]) t @ [[]])
      else (\<exists>segs. cut_at_occurrences pat segs t \<and> result = str_join sub segs))"

text \<open>
  The contract of the substitution engine, in the specification's words: the rules are
  taken in order, each against the text the previous ones left; a rule whose \<open>old\<close> occurs
  as a literal substring of the current text has all occurrences replaced and its label
  appended to the applied labels; a rule whose \<open>old\<close> does not occur is skipped; the
  output is the final text and the applied labels.
\<close>

inductive applies :: "string \<Rightarrow> string list \<Rightarrow> Replacement list \<Rightarrow> string \<times> string list \<Rightarrow> bool" where
  finished: "applies t applied [] (t, applied)"
| matched: "sublist (old r) t \<Longrightarrow> all_replaced (old r) (new r) t t' \<Longrightarrow>
     applies t' (applied @ [label r]) rest res \<Longrightarrow> applies t applied (r # rest) res"
| skipped: "\<not> sublist (old r) t \<Longrightarrow> applies t applied rest res \<Longrightarrow>
     applies t applied (r # rest) res"

text \<open>
  The proviso of the idempotence property: no rule's \<open>new\<close> text contains another rule's
  \<open>old\<close> text.
\<close>

definition no_reintroduction :: "Replacement list \<Rightarrow> bool" where
  "no_reintroduction rules =
     (\<forall>i < length rules. \<forall>j < length rules.
        i \<noteq> j \<longrightarrow> \<not> sublist (old (rules ! j)) (new (rules ! i)))"

text \<open>
  An inserted text \<open>ins\<close> can touch an occurrence of \<open>pat\<close> when, in some context
  \<open>u @ ins @ v\<close>, \<open>pat\<close> occurs neither wholly inside \<open>u\<close> nor wholly inside \<open>v\<close>: it
  lies in \<open>ins\<close>, runs across one of its ends, or spans it.
\<close>

definition clash :: "'a list \<Rightarrow> 'a list \<Rightarrow> bool" where
  "clash pat ins \<longleftrightarrow>
     (\<exists>u v a b. u @ ins @ v = a @ pat @ b
        \<and> length u < length (a @ pat) \<and> length a < length (u @ ins))"

text \<open>
  The proviso under which a second pass has nothing to do: no \<open>old\<close> text is empty, and
  no rule's \<open>new\<close> text can touch an occurrence of any rule's \<open>old\<close> text, its own
  included.
\<close>

definition overlap_free :: "Replacement list \<Rightarrow> bool" where
  "overlap_free rules \<longleftrightarrow>
     (\<forall>r \<in> set rules. old r \<noteq> [] \<and> (\<forall>r' \<in> set rules. \<not> clash (old r) (new r')))"

text \<open>
  Whether \<open>ins\<close> can touch an occurrence of \<open>pat\<close> is decided by comparing ends: an
  occurrence that begins before \<open>ins\<close> continues into it with one of its proper suffixes,
  one that begins at or after the start of \<open>ins\<close> continues from a suffix of \<open>ins\<close>, and
  in both cases one of the two texts runs out first.
\<close>

definition comparable :: "'a list \<Rightarrow> 'a list \<Rightarrow> bool" where
  "comparable x y \<longleftrightarrow> prefix x y \<or> prefix y x"

fun tails :: "'a list \<Rightarrow> 'a list list" where
  "tails [] = []"
| "tails (c # cs) = (c # cs) # tails cs"

definition touches :: "'a list \<Rightarrow> 'a list \<Rightarrow> bool" where
  "touches pat ins \<longleftrightarrow>
     list_ex (\<lambda>s. comparable s ins) (tails (tl pat))
     \<or> (pat \<noteq> [] \<and> ins \<noteq> [] \<and> comparable pat ins)
     \<or> list_ex (\<lambda>s. comparable pat s) (tails (tl ins))"

section \<open>Observing a run, and the specification's reading of the driver\<close>

text \<open>
  The state in which a run ended, by return or by an uncaught exception, and how it
  ended: the exception raised or the exit status returned.
\<close>

definition state_reached :: "run_state outcome \<Rightarrow> run_state" where
  "state_reached r = (case r of Inl (failure, st) \<Rightarrow> st | Inr st \<Rightarrow> st)"

definition final_state :: "(int \<times> run_state) outcome \<Rightarrow> run_state" where
  "final_state r = (case r of Inl (failure, st) \<Rightarrow> st | Inr (code, st) \<Rightarrow> st)"

definition exit_of :: "(int \<times> run_state) outcome \<Rightarrow> io_error + int" where
  "exit_of r = (case r of Inl (failure, st) \<Rightarrow> Inl failure | Inr (code, st) \<Rightarrow> Inr code)"

text \<open>A file on which neither \<^verbatim>\<open>read_text\<close> nor \<^verbatim>\<open>write_text\<close> raises.\<close>

definition usable :: "entry \<Rightarrow> bool" where
  "usable e = (text_of e \<noteq> None \<and> writable e)"

text \<open>
  A target has a change to report when its file is there, can be read, and at least one
  of its rules matches.
\<close>

definition would_edit :: "(path \<rightharpoonup> entry) \<Rightarrow> path \<times> Replacement list \<Rightarrow> bool" where
  "would_edit fs target =
     (case fs (fst target) of
        None \<Rightarrow> False
      | Some e \<Rightarrow>
          (case text_of e of
             None \<Rightarrow> False
           | Some original \<Rightarrow> snd (apply_replacements original (snd target) (fst target)) \<noteq> []))"

text \<open>
  The report the specification gives a target: a warning when the file is missing,
  ``no changes'' when no label matched, the file and the matched labels otherwise.  (A
  file that cannot be read has no report: the run ends there.)
\<close>

definition expected_report :: "(path \<rightharpoonup> entry) \<Rightarrow> path \<times> Replacement list \<Rightarrow> string" where
  "expected_report fs target =
     (case fs (fst target) of
        None \<Rightarrow> warn_line (fst target)
      | Some e \<Rightarrow>
          (case text_of e of
             None \<Rightarrow> []
           | Some original \<Rightarrow>
               if snd (apply_replacements original (snd target) (fst target)) = []
                 then ok_line (fst target)
                 else edit_line (fst target)
                        (snd (apply_replacements original (snd target) (fst target)))))"

text \<open>The three forms of a per-file report.\<close>

definition report_form :: "path \<Rightarrow> string \<Rightarrow> bool" where
  "report_form p line =
     (line = warn_line p \<or> line = ok_line p
      \<or> (\<exists>labels. labels \<noteq> [] \<and> line = edit_line p labels))"

text \<open>Two states that differ in what was printed at most.\<close>

definition same_effects :: "run_state \<Rightarrow> run_state \<Rightarrow> bool" where
  "same_effects a b = (files a = files b \<and> written a = written b \<and> any_changed a = any_changed b)"

section \<open>Properties of the string primitives\<close>

lemma str_in_sublist: "str_in pat t = sublist pat t"
  by (induction t) (simp_all add: sublist_Cons_right)

lemma str_in_empty: "str_in [] t"
  by (cases t) simp_all

text \<open>Without an occurrence, replacing changes nothing.\<close>

lemma str_replace_absent: "\<not> str_in pat t \<Longrightarrow> str_replace pat sub t = t"
proof (induction t)
  case Nil
  then show ?case by simp
next
  case (Cons c cs)
  then show ?case by auto
qed

lemma prefix_shorter:
  assumes "prefix pat ((c # pre) @ pat @ rest)" and "pat \<noteq> []"
  shows "prefix pat ((c # pre) @ butlast pat)"
proof -
  have "prefix (butlast pat) pat"
    by (simp add: prefixeq_butlast)
  then have "prefix (butlast pat) (pat @ rest)"
    by (rule prefix_prefix)
  then have "prefix ((c # pre) @ butlast pat) ((c # pre) @ pat @ rest)"
    by simp
  moreover have "length pat \<le> length ((c # pre) @ butlast pat)"
    by simp
  ultimately show ?thesis
    using assms(1) prefix_length_prefix by blast
qed

text \<open>
  The leftmost occurrence is replaced and the scan goes on behind it: when \<open>pat\<close> starts
  nowhere before the end of \<open>pre\<close>, the text \<open>pre @ pat @ rest\<close> becomes \<open>pre @ sub\<close>
  followed by the replacement of \<open>rest\<close>.
\<close>

lemma str_replace_first_occurrence:
  assumes "pat \<noteq> []" and "\<not> str_in pat (pre @ butlast pat)"
  shows "str_replace pat sub (pre @ pat @ rest) = pre @ sub @ str_replace pat sub rest"
  using assms(2)
proof (induction pre)
  case Nil
  obtain c cs where "pat @ rest = c # cs"
    using assms(1) by (cases pat) simp_all
  moreover have "prefix pat (pat @ rest)" by simp
  moreover have "drop (length pat) (pat @ rest) = rest" by simp
  ultimately show ?case
    using assms(1) by (metis append_Nil str_replace.simps(2))
next
  case (Cons c pre)
  have "\<not> prefix pat ((c # pre) @ pat @ rest)"
    using Cons.prems prefix_shorter [OF _ assms(1), of c pre rest] by auto
  moreover have "\<not> str_in pat (pre @ butlast pat)"
    using Cons.prems by simp
  ultimately show ?case
    using Cons.IH assms(1) by simp
qed

text \<open>An occurrence has a leftmost one.\<close>

lemma str_in_length: "str_in pat t \<Longrightarrow> length pat \<le> length t"
  by (induction t) (auto dest: prefix_length_le)

lemma first_occurrence:
  assumes "str_in pat t" and "pat \<noteq> []"
  shows "\<exists>pre rest. t = pre @ pat @ rest \<and> \<not> str_in pat (pre @ butlast pat)"
  using assms(1)
proof (induction t)
  case Nil
  then show ?case using assms(2) by simp
next
  case (Cons c cs)
  have short: "\<not> str_in pat (butlast pat)"
    using str_in_length [of pat "butlast pat"] assms(2) by (cases pat) auto
  show ?case
  proof (cases "prefix pat (c # cs)")
    case True
    then obtain rest where "c # cs = [] @ pat @ rest"
      by (auto simp: prefix_def)
    with short show ?thesis by (metis append_Nil)
  next
    case False
    with Cons.prems have "str_in pat cs" by simp
    then obtain pre rest where cs: "cs = pre @ pat @ rest"
      and free: "\<not> str_in pat (pre @ butlast pat)"
      using Cons.IH by blast
    have "\<not> prefix pat ((c # pre) @ butlast pat)"
    proof
      assume "prefix pat ((c # pre) @ butlast pat)"
      moreover have "prefix ((c # pre) @ butlast pat) ((c # pre) @ pat @ rest)"
        by (simp add: prefixeq_butlast prefix_prefix)
      ultimately have "prefix pat (c # cs)"
        unfolding cs by (metis append_Cons prefix_order.order_trans)
      with False show False by simp
    qed
    with free have "\<not> str_in pat ((c # pre) @ butlast pat)" by simp
    moreover have "c # cs = (c # pre) @ pat @ rest" using cs by simp
    ultimately show ?thesis by blast
  qed
qed

text \<open>
  Replacing is splitting and joining: the text is cut at occurrences of \<open>pat\<close> into
  segments that contain none, and the result is the same segments with \<open>sub\<close> between
  them, so no occurrence outside the replaced ones is left behind.
\<close>

lemma str_join_Cons: "segs \<noteq> [] \<Longrightarrow> str_join sep (s # segs) = s @ sep @ str_join sep segs"
  by (cases segs) simp_all

lemma str_replace_segments:
  assumes "pat \<noteq> []"
  shows "\<exists>segs. segs \<noteq> [] \<and> t = str_join pat segs
           \<and> str_replace pat sub t = str_join sub segs
           \<and> (\<forall>s \<in> set segs. \<not> sublist pat s)"
proof (induction t rule: length_induct)
  case (1 t)
  show ?case
  proof (cases "str_in pat t")
    case False
    then have "[t] \<noteq> [] \<and> t = str_join pat [t] \<and> str_replace pat sub t = str_join sub [t]
        \<and> (\<forall>s \<in> set [t]. \<not> sublist pat s)"
      by (simp add: str_replace_absent str_in_sublist)
    then show ?thesis by blast
  next
    case True
    then obtain pre rest where t: "t = pre @ pat @ rest"
      and free: "\<not> str_in pat (pre @ butlast pat)"
      using first_occurrence assms by blast
    have "length rest < length t"
      using assms by (simp add: t)
    then obtain segs where segs: "segs \<noteq> []" "rest = str_join pat segs"
      "str_replace pat sub rest = str_join sub segs" "\<forall>s \<in> set segs. \<not> sublist pat s"
      using 1 by blast
    have "\<not> sublist pat pre"
      using free by (auto simp: str_in_sublist sublist_append)
    moreover have "t = str_join pat (pre # segs)"
      using segs(1,2) by (simp add: t str_join_Cons)
    moreover have "str_replace pat sub t = str_join sub (pre # segs)"
      using str_replace_first_occurrence [OF assms free, of sub rest] segs(1,3)
      by (simp add: t str_join_Cons)
    ultimately have "pre # segs \<noteq> [] \<and> t = str_join pat (pre # segs)
        \<and> str_replace pat sub t = str_join sub (pre # segs)
        \<and> (\<forall>s \<in> set (pre # segs). \<not> sublist pat s)"
      using segs(4) by simp
    then show ?thesis by blast
  qed
qed

text \<open>
  The scan cuts the text at its occurrences of \<open>pat\<close>, and every such cut gives the
  scan's result: replacing all occurrences is what \<open>str_replace\<close> computes, and nothing
  else is.
\<close>

lemma str_replace_cut:
  assumes "pat \<noteq> []"
  shows "\<exists>segs. cut_at_occurrences pat segs t \<and> str_replace pat sub t = str_join sub segs"
proof (induction t rule: length_induct)
  case (1 t)
  show ?case
  proof (cases "str_in pat t")
    case False
    then have "cut_at_occurrences pat [t] t \<and> str_replace pat sub t = str_join sub [t]"
      by (simp add: cut_at_occurrences_def str_replace_absent str_in_sublist)
    then show ?thesis by blast
  next
    case True
    then obtain pre rest where t: "t = pre @ pat @ rest"
      and free: "\<not> str_in pat (pre @ butlast pat)"
      using first_occurrence assms by blast
    have "length rest < length t"
      using assms by (simp add: t)
    then obtain segs where cut: "cut_at_occurrences pat segs rest"
      and res: "str_replace pat sub rest = str_join sub segs"
      using 1 by blast
    have ne: "segs \<noteq> []" and rest: "rest = str_join pat segs"
      using cut by (simp_all add: cut_at_occurrences_def)
    have here: "\<not> sublist pat (pre @ butlast pat)"
      using free by (simp add: str_in_sublist)
    then have "\<not> sublist pat pre"
      by (auto simp: sublist_append)
    with here cut have "cut_at_occurrences pat (pre # segs) t"
      using ne by (simp add: cut_at_occurrences_def t rest str_join_Cons)
    moreover have "str_replace pat sub t = str_join sub (pre # segs)"
      using str_replace_first_occurrence [OF assms free, of sub rest] ne res
      by (simp add: t str_join_Cons)
    ultimately show ?thesis by blast
  qed
qed

lemma cut_determines_result:
  assumes "pat \<noteq> []" and "cut_at_occurrences pat segs t"
  shows "str_join sub segs = str_replace pat sub t"
  using assms(2)
proof (induction segs arbitrary: t)
  case Nil
  then show ?case by (simp add: cut_at_occurrences_def)
next
  case (Cons s segs)
  show ?case
  proof (cases segs)
    case Nil
    with Cons.prems show ?thesis
      by (simp add: cut_at_occurrences_def str_replace_absent str_in_sublist)
  next
    case (Cons s' ss)
    have free: "\<not> str_in pat (s @ butlast pat)"
      using Cons.prems Cons by (simp add: cut_at_occurrences_def str_in_sublist)
    have t: "t = s @ pat @ str_join pat segs"
      using Cons.prems Cons by (simp add: cut_at_occurrences_def)
    have "cut_at_occurrences pat segs (str_join pat segs)"
      using Cons.prems Cons by (simp add: cut_at_occurrences_def)
    then have "str_join sub segs = str_replace pat sub (str_join pat segs)"
      by (rule Cons.IH)
    then show ?thesis
      using str_replace_first_occurrence [OF assms(1) free, of sub "str_join pat segs"] Cons
      by (simp add: t)
  qed
qed

lemma str_replace_everywhere:
  "str_replace [] sub t = str_join sub ([] # map (\<lambda>c. [c]) t @ [[]])"
proof (induction t)
  case Nil
  then show ?case by simp
next
  case (Cons c cs)
  have "str_join sub ([] # map (\<lambda>c. [c]) cs @ [[]]) = sub @ str_join sub (map (\<lambda>c. [c]) cs @ [[]])"
    by (simp add: str_join_Cons)
  with Cons show ?case
    by (simp add: str_join_Cons)
qed

lemma all_replaced_iff: "all_replaced pat sub t result \<longleftrightarrow> result = str_replace pat sub t"
proof (cases "pat = []")
  case True
  then show ?thesis by (simp add: all_replaced_def str_replace_everywhere)
next
  case False
  show ?thesis
  proof
    assume "all_replaced pat sub t result"
    then show "result = str_replace pat sub t"
      using False cut_determines_result by (auto simp: all_replaced_def)
  next
    assume "result = str_replace pat sub t"
    then show "all_replaced pat sub t result"
      using False str_replace_cut [OF False, of t sub] by (auto simp: all_replaced_def)
  qed
qed

text \<open>Occurrences around an inserted text.\<close>

lemma append_eq_shorter:
  assumes "xs @ ys = zs @ ws" and "length zs \<le> length xs"
  shows "\<exists>c. xs = zs @ c \<and> ws = c @ ys"
proof -
  have "zs = take (length zs) (xs @ ys)"
    using assms(1) by simp
  then have front: "zs = take (length zs) xs"
    using assms(2) by simp
  have "ws = drop (length zs) (xs @ ys)"
    using assms(1) by simp
  then have behind: "ws = drop (length zs) xs @ ys"
    using assms(2) by simp
  have "xs = zs @ drop (length zs) xs"
    using front by (metis append_take_drop_id)
  with behind show ?thesis by blast
qed

text \<open>An occurrence in a text around an insertion lies before it, behind it, or touches it.\<close>

lemma occurrence_around_insertion:
  assumes "sublist pat (u @ ins @ v)"
  shows "sublist pat u \<or> sublist pat v \<or> clash pat ins"
proof -
  obtain a b where eq: "u @ ins @ v = a @ pat @ b"
    using assms by (auto simp: sublist_def)
  show ?thesis
  proof (cases "length (a @ pat) \<le> length u")
    case True
    have "u @ (ins @ v) = (a @ pat) @ b" using eq by simp
    from append_eq_shorter [OF this True] obtain c where "u = (a @ pat) @ c" by blast
    then have "sublist pat u" by (auto simp: sublist_def)
    then show ?thesis by simp
  next
    case False
    note late = this
    show ?thesis
    proof (cases "length (u @ ins) \<le> length a")
      case True
      have "a @ (pat @ b) = (u @ ins) @ v" using eq by simp
      from append_eq_shorter [OF this True] obtain c where "v = c @ pat @ b" by blast
      then have "sublist pat v" by (auto simp: sublist_def)
      then show ?thesis by simp
    next
      case False
      with late eq have "clash pat ins"
        unfolding clash_def by (metis not_le)
      then show ?thesis by simp
    qed
  qed
qed

lemma segment_in_join: "s \<in> set segs \<Longrightarrow> sublist s (str_join sep segs)"
proof (induction sep segs rule: str_join.induct)
  case (1 sep)
  then show ?case by simp
next
  case (2 sep x)
  then show ?case by simp
next
  case (3 sep x y ys)
  show ?case
  proof (cases "s = x")
    case True
    then show ?thesis by (simp add: sublist_append)
  next
    case False
    with 3 have "sublist s (str_join sep (y # ys))" by simp
    then obtain p q where "str_join sep (y # ys) = p @ s @ q"
      by (auto simp: sublist_def)
    then have "str_join sep (x # y # ys) = (x @ sep @ p) @ s @ q"
      by simp
    then show ?thesis
      unfolding sublist_def by blast
  qed
qed

text \<open>Joining segments free of \<open>pat\<close> with a text that cannot touch \<open>pat\<close> gives a text free of it.\<close>

lemma join_stays_free:
  assumes "\<not> clash pat ins" and "segs \<noteq> []" and "\<forall>s \<in> set segs. \<not> sublist pat s"
  shows "\<not> sublist pat (str_join ins segs)"
  using assms(2,3)
proof (induction segs)
  case Nil
  then show ?case by simp
next
  case (Cons s segs)
  show ?case
  proof (cases segs)
    case Nil
    with Cons.prems show ?thesis by simp
  next
    case (Cons s' ss)
    then have "\<not> sublist pat (str_join ins segs)"
      using Cons.IH Cons.prems by simp
    moreover have "\<not> sublist pat s"
      using Cons.prems by simp
    ultimately have "\<not> sublist pat (s @ ins @ str_join ins segs)"
      using occurrence_around_insertion assms(1) by blast
    then show ?thesis
      using Cons by simp
  qed
qed

text \<open>Texts with no character in common cannot touch.\<close>

lemma no_common_character_no_clash:
  assumes "pat \<noteq> []" and "ins \<noteq> []" and "set pat \<inter> set ins = {}"
  shows "\<not> clash pat ins"
proof
  assume "clash pat ins"
  then obtain u v a b where eq: "u @ ins @ v = a @ pat @ b"
    and l1: "length u < length a + length pat" and l2: "length a < length u + length ins"
    by (auto simp: clash_def)
  define k where "k = max (length u) (length a)"
  have pos: "0 < length pat" "0 < length ins"
    using assms(1,2) by simp_all
  have ku: "length u \<le> k" "k - length u < length ins"
    using l2 pos unfolding k_def by linarith+
  have ka: "length a \<le> k" "k - length a < length pat"
    using l1 pos unfolding k_def by linarith+
  have "(u @ ins @ v) ! k = ins ! (k - length u)"
    using ku by (simp add: nth_append)
  moreover have "(a @ pat @ b) ! k = pat ! (k - length a)"
    using ka by (simp add: nth_append)
  ultimately have "ins ! (k - length u) = pat ! (k - length a)"
    using eq by simp
  moreover have "ins ! (k - length u) \<in> set ins" "pat ! (k - length a) \<in> set pat"
    using ku ka by simp_all
  ultimately show False
    using assms(3) by auto
qed

text \<open>The comparison of ends decides whether two texts can touch.\<close>

lemma comparable_heads: "xs @ ys = zs @ ws \<Longrightarrow> comparable xs zs"
  by (auto simp: comparable_def prefix_def append_eq_append_conv2)

lemma clash_positions:
  "clash pat ins \<longleftrightarrow>
     (\<exists>k. 1 \<le> k \<and> k < length pat \<and> comparable (drop k pat) ins)
     \<or> (\<exists>m. m < length ins \<and> (0 < m \<or> pat \<noteq> []) \<and> comparable pat (drop m ins))"
  (is "_ \<longleftrightarrow> ?positions")
proof
  assume "clash pat ins"
  then obtain u v a b where eq: "u @ ins @ v = a @ pat @ b"
    and l1: "length u < length a + length pat" and l2: "length a < length u + length ins"
    by (auto simp: clash_def)
  show ?positions
  proof (cases "length a < length u")
    case True
    define k where "k = length u - length a"
    have k: "1 \<le> k" "k < length pat"
      using True l1 by (simp_all add: k_def)
    have "drop (length u) (u @ ins @ v) = drop (length u) (a @ pat @ b)"
      using eq by simp
    then have "ins @ v = drop k pat @ b"
      using True k by (simp add: k_def)
    then have "comparable (drop k pat) ins"
      using comparable_heads [of "drop k pat" b ins v] by simp
    then show ?thesis
      using k by blast
  next
    case False
    define m where "m = length a - length u"
    have m: "m < length ins"
      using False l2 by (simp add: m_def)
    have "drop (length a) (a @ pat @ b) = drop (length a) (u @ ins @ v)"
      using eq by simp
    then have "pat @ b = drop m ins @ v"
      using False m by (simp add: m_def)
    then have "comparable pat (drop m ins)"
      by (rule comparable_heads)
    moreover have "0 < m \<or> pat \<noteq> []"
      using False l1 by (cases "pat = []") (simp_all add: m_def)
    ultimately show ?thesis
      using m by blast
  qed
next
  assume ?positions
  then consider k where "1 \<le> k" "k < length pat" "comparable (drop k pat) ins"
    | m where "m < length ins" "0 < m \<or> pat \<noteq> []" "comparable pat (drop m ins)"
    by blast
  then show "clash pat ins"
  proof cases
    case 1
    from 1(3) consider w where "ins = drop k pat @ w" | w where "drop k pat = ins @ w"
      by (auto simp: comparable_def prefix_def)
    then show ?thesis
    proof cases
      case 1
      then have "take k pat @ ins @ [] = [] @ pat @ w"
        by simp
      moreover have "length (take k pat) < length ([] @ pat)"
        "length ([]::'a list) < length (take k pat @ ins)"
        using \<open>1 \<le> k\<close> \<open>k < length pat\<close> by simp_all
      ultimately show ?thesis
        unfolding clash_def by blast
    next
      case 2
      then have "take k pat @ ins @ w = [] @ pat @ []"
        by (metis append_Nil append_Nil2 append_take_drop_id)
      moreover have "length (take k pat) < length ([] @ pat)"
        "length ([]::'a list) < length (take k pat @ ins)"
        using \<open>1 \<le> k\<close> \<open>k < length pat\<close> by simp_all
      ultimately show ?thesis
        unfolding clash_def by blast
    qed
  next
    case 2
    from 2(3) consider w where "drop m ins = pat @ w" | w where "pat = drop m ins @ w"
      by (auto simp: comparable_def prefix_def)
    then show ?thesis
    proof cases
      case 1
      then have "[] @ ins @ [] = take m ins @ pat @ w"
        by (metis append_Nil append_Nil2 append_take_drop_id)
      moreover have "length ([]::'a list) < length (take m ins @ pat)"
        "length (take m ins) < length ([] @ ins)"
        using 2(1,2) by auto
      ultimately show ?thesis
        unfolding clash_def by blast
    next
      case 2
      then have "[] @ ins @ w = take m ins @ pat @ []"
        by (metis append.assoc append_Nil append_Nil2 append_take_drop_id)
      moreover have "length ([]::'a list) < length (take m ins @ pat)"
        "length (take m ins) < length ([] @ ins)"
        using \<open>m < length ins\<close> \<open>0 < m \<or> pat \<noteq> []\<close> by auto
      ultimately show ?thesis
        unfolding clash_def by blast
    qed
  qed
qed

lemma set_tails: "set (tails xs) = {drop k xs |k. k < length xs}"
proof (induction xs)
  case Nil
  then show ?case by simp
next
  case (Cons c cs)
  have "{drop k (c # cs) |k. k < length (c # cs)}
          = insert (c # cs) {drop k cs |k. k < length cs}"
  proof (intro set_eqI iffI)
    fix s assume "s \<in> {drop k (c # cs) |k. k < length (c # cs)}"
    then obtain k where k: "s = drop k (c # cs)" "k < length (c # cs)" by blast
    then show "s \<in> insert (c # cs) {drop k cs |k. k < length cs}"
      by (cases k) auto
  next
    fix s assume "s \<in> insert (c # cs) {drop k cs |k. k < length cs}"
    then consider "s = drop 0 (c # cs)" | k where "s = drop (Suc k) (c # cs)" "k < length cs"
      by auto
    then show "s \<in> {drop k (c # cs) |k. k < length (c # cs)}"
    proof cases
      case 1
      then show ?thesis by (metis (mono_tags, lifting) length_greater_0_conv list.distinct(1) mem_Collect_eq)
    next
      case 2
      then have "Suc k < length (c # cs)" by simp
      with 2(1) show ?thesis by blast
    qed
  qed
  with Cons show ?case by simp
qed

lemma set_tails_tl: "set (tails (tl xs)) = {drop k xs |k. 1 \<le> k \<and> k < length xs}"
proof (cases xs)
  case Nil
  then show ?thesis by simp
next
  case (Cons c cs)
  have "{drop k cs |k. k < length cs} = {drop k (c # cs) |k. 1 \<le> k \<and> k < length (c # cs)}"
  proof (intro set_eqI iffI)
    fix s assume "s \<in> {drop k cs |k. k < length cs}"
    then obtain k where "s = drop (Suc k) (c # cs)" "1 \<le> Suc k" "Suc k < length (c # cs)"
      by auto
    then show "s \<in> {drop k (c # cs) |k. 1 \<le> k \<and> k < length (c # cs)}" by blast
  next
    fix s assume "s \<in> {drop k (c # cs) |k. 1 \<le> k \<and> k < length (c # cs)}"
    then obtain k where k: "s = drop k (c # cs)" "1 \<le> k" "k < length (c # cs)" by blast
    then show "s \<in> {drop k cs |k. k < length cs}"
      by (cases k) auto
  qed
  then show ?thesis
    by (simp add: Cons set_tails)
qed

lemma clash_touches: "clash pat ins \<longleftrightarrow> touches pat ins"
proof -
  have first: "list_ex (\<lambda>s. comparable s ins) (tails (tl pat))
      \<longleftrightarrow> (\<exists>k. 1 \<le> k \<and> k < length pat \<and> comparable (drop k pat) ins)"
    unfolding list_ex_iff set_tails_tl by blast
  have later: "list_ex (\<lambda>s. comparable pat s) (tails (tl ins))
      \<longleftrightarrow> (\<exists>m. 1 \<le> m \<and> m < length ins \<and> comparable pat (drop m ins))"
    unfolding list_ex_iff set_tails_tl by blast
  have "(\<exists>m. m < length ins \<and> (0 < m \<or> pat \<noteq> []) \<and> comparable pat (drop m ins))
      \<longleftrightarrow> (pat \<noteq> [] \<and> ins \<noteq> [] \<and> comparable pat ins)
          \<or> (\<exists>m. 1 \<le> m \<and> m < length ins \<and> comparable pat (drop m ins))"
  proof
    assume "\<exists>m. m < length ins \<and> (0 < m \<or> pat \<noteq> []) \<and> comparable pat (drop m ins)"
    then obtain m where m: "m < length ins" "0 < m \<or> pat \<noteq> []" "comparable pat (drop m ins)"
      by blast
    show "(pat \<noteq> [] \<and> ins \<noteq> [] \<and> comparable pat ins)
          \<or> (\<exists>m. 1 \<le> m \<and> m < length ins \<and> comparable pat (drop m ins))"
    proof (cases m)
      case 0
      with m show ?thesis by auto
    next
      case (Suc n)
      with m have "1 \<le> m" by simp
      with m show ?thesis by blast
    qed
  next
    assume "(pat \<noteq> [] \<and> ins \<noteq> [] \<and> comparable pat ins)
          \<or> (\<exists>m. 1 \<le> m \<and> m < length ins \<and> comparable pat (drop m ins))"
    then consider "pat \<noteq> []" "ins \<noteq> []" "comparable pat (drop 0 ins)"
      | m where "1 \<le> m" "m < length ins" "comparable pat (drop m ins)"
      by auto
    then show "\<exists>m. m < length ins \<and> (0 < m \<or> pat \<noteq> []) \<and> comparable pat (drop m ins)"
    proof cases
      case 1
      then have "0 < length ins" by simp
      with 1 show ?thesis by blast
    next
      case 2
      then have "0 < m" by simp
      with 2 show ?thesis by blast
    qed
  qed
  then show ?thesis
    unfolding clash_positions touches_def first later by blast
qed

lemma str_replace_empty: "str_replace [] sub t = concat (map (\<lambda>c. sub @ [c]) t) @ sub"
  by (induction t) simp_all

section \<open>Properties of the engine\<close>

lemma loop_append:
  "replacements_loop t acc (xs @ ys) =
     (case replacements_loop t acc xs of (t1, l) \<Rightarrow> replacements_loop t1 l ys)"
  by (induction xs arbitrary: t acc) simp_all

lemma applies_loop: "applies t acc rs res \<longleftrightarrow> res = replacements_loop t acc rs"
proof
  assume "applies t acc rs res"
  then show "res = replacements_loop t acc rs"
    by (induction rule: applies.induct) (simp_all add: all_replaced_iff str_in_sublist)
next
  assume "res = replacements_loop t acc rs"
  then show "applies t acc rs res"
  proof (induction rs arbitrary: t acc)
    case Nil
    then show ?case by (simp add: applies.finished)
  next
    case (Cons r rs)
    show ?case
    proof (cases "sublist (old r) t")
      case True
      have a: "all_replaced (old r) (new r) t (str_replace (old r) (new r) t)"
        by (simp add: all_replaced_iff)
      have b: "applies (str_replace (old r) (new r) t) (acc @ [label r]) rs res"
        using Cons True by (simp add: str_in_sublist)
      show ?thesis
        by (rule applies.matched [OF True a b])
    next
      case False
      then show ?thesis
        using Cons by (simp add: applies.skipped str_in_sublist)
    qed
  qed
qed

lemma loop_no_match:
  "(\<forall>r \<in> set rs. \<not> str_in (old r) t) \<Longrightarrow> replacements_loop t acc rs = (t, acc)"
  by (induction rs) simp_all

lemma loop_labels_grow: "\<exists>more. snd (replacements_loop t acc rs) = acc @ more"
  by (induction rs arbitrary: t acc) (auto, metis append.assoc)

lemma loop_unchanged_labels:
  "snd (replacements_loop t acc rs) = acc \<Longrightarrow> (\<forall>r \<in> set rs. \<not> str_in (old r) t)"
proof (induction rs arbitrary: t acc)
  case Nil
  then show ?case by simp
next
  case (Cons r rs)
  show ?case
  proof (cases "str_in (old r) t")
    case True
    obtain more where
      "snd (replacements_loop (str_replace (old r) (new r) t) (acc @ [label r]) rs)
         = (acc @ [label r]) @ more"
      using loop_labels_grow by blast
    with True Cons.prems show ?thesis by simp
  next
    case False
    with Cons show ?thesis by simp
  qed
qed

text \<open>
  Under the proviso, a replacement leaves no occurrence of its own \<open>old\<close> and creates
  none of another rule's, so after a pass no rule's \<open>old\<close> occurs.
\<close>

lemma replace_keeps_free:
  assumes "old r \<noteq> []" and "\<not> clash pat (new r)" and "\<not> sublist pat t"
  shows "\<not> sublist pat (str_replace (old r) (new r) t)"
proof -
  obtain segs where ne: "segs \<noteq> []" and t: "t = str_join (old r) segs"
    and res: "str_replace (old r) (new r) t = str_join (new r) segs"
    using str_replace_segments [OF assms(1)] by blast
  have "\<forall>s \<in> set segs. \<not> sublist pat s"
    using assms(3) segment_in_join [of _ segs "old r"] t
    by (metis sublist_order.order_trans)
  then show ?thesis
    using join_stays_free [OF assms(2) ne] res by simp
qed

lemma replace_removes_own:
  assumes "old r \<noteq> []" and "\<not> clash (old r) (new r)"
  shows "\<not> sublist (old r) (str_replace (old r) (new r) t)"
proof -
  obtain segs where ne: "segs \<noteq> []"
    and res: "str_replace (old r) (new r) t = str_join (new r) segs"
    and free: "\<forall>s \<in> set segs. \<not> sublist (old r) s"
    using str_replace_segments [OF assms(1)] by blast
  show ?thesis
    using join_stays_free [OF assms(2) ne free] res by simp
qed

lemma loop_keeps_free:
  assumes "\<forall>r \<in> set rs. old r \<noteq> [] \<and> \<not> clash pat (new r)" and "\<not> sublist pat t"
  shows "\<not> sublist pat (fst (replacements_loop t acc rs))"
  using assms
proof (induction rs arbitrary: t acc)
  case Nil
  then show ?case by simp
next
  case (Cons r rs)
  then show ?case
    using replace_keeps_free [of r pat t] by simp
qed

lemma loop_leaves_no_old:
  assumes "overlap_free rs"
  shows "\<forall>r \<in> set rs. \<not> sublist (old r) (fst (replacements_loop t acc rs))"
  using assms
proof (induction rs arbitrary: t acc)
  case Nil
  then show ?case by simp
next
  case (Cons r rs)
  have nonempty: "old r \<noteq> []" and own: "\<not> clash (old r) (new r)"
    and later: "\<forall>r' \<in> set rs. old r' \<noteq> [] \<and> \<not> clash (old r) (new r')"
    and rest: "overlap_free rs"
    using Cons.prems by (auto simp: overlap_free_def)
  define t' where "t' = (if str_in (old r) t then str_replace (old r) (new r) t else t)"
  define acc' where "acc' = (if str_in (old r) t then acc @ [label r] else acc)"
  have step: "replacements_loop t acc (r # rs) = replacements_loop t' acc' rs"
    by (simp add: t'_def acc'_def)
  have "\<not> sublist (old r) t'"
    using replace_removes_own [OF nonempty own] by (simp add: t'_def str_in_sublist)
  then have "\<not> sublist (old r) (fst (replacements_loop t' acc' rs))"
    using loop_keeps_free [OF later] by blast
  moreover have "\<forall>r' \<in> set rs. \<not> sublist (old r') (fst (replacements_loop t' acc' rs))"
    using Cons.IH [OF rest] by blast
  ultimately show ?case
    unfolding step by simp
qed

text \<open>
  The loop over the store: the new list collects what the loop of the engine collects,
  and nothing else in the store moves.
\<close>

lemma heap_loop_runs:
  assumes "ra < length h" and "h ! ra = RuleList rules" and "i \<le> length rules"
  shows "heap_loop (h @ [LabelList acc]) t (length h) ra i =
           Some (fst (replacements_loop t acc (drop i rules)),
                 h @ [LabelList (snd (replacements_loop t acc (drop i rules)))])"
  using assms(3)
proof (induction "length rules - i" arbitrary: i t acc)
  case 0
  then have "i = length rules" by simp
  then show ?case
    using assms(1,2) by (subst heap_loop.simps) (simp add: nth_append)
next
  case (Suc n)
  then have i: "i < length rules" by simp
  then have rest: "drop i rules = rules ! i # drop (Suc i) rules"
    by (simp add: Cons_nth_drop_Suc)
  have n: "n = length rules - Suc i" and le: "Suc i \<le> length rules"
    using Suc.hyps(2) i by simp_all
  have grow: "list_append (h @ [LabelList acc]) (length h) x = Some (h @ [LabelList (acc @ [x])])"
    for x
    by (simp add: list_append_def)
  show ?case
    using assms(1,2) i Suc.hyps(1) [OF n le]
    by (subst heap_loop.simps) (simp add: nth_append rest grow Let_def)
qed

text \<open>
  Claim C1.  For every text and every ordered list of rules, \<open>apply_replacements\<close> returns
  exactly what the contract describes: the rules are taken in order against the
  progressively updated text; a rule whose \<open>old\<close> is a literal substring of the current
  text has every occurrence of \<open>old\<close> replaced by \<open>new\<close> and its label appended; any other
  rule leaves both as they are; the pair returned is the final text and the labels of
  the rules that matched, in rule order.
\<close>

theorem apply_replacements_in_rule_order:
  "applies text [] rules result \<longleftrightarrow> result = apply_replacements text rules file_label"
  by (simp add: applies_loop apply_replacements_def)

theorem apply_replacements_in_rule_order_witness:
  "apply_replacements ''<p>Hello</p><b>Hello</b>''
     [\<lparr>old = ''Hello'', new = ''Goodbye'', label = ''x:y:z''\<rparr>,
      \<lparr>old = ''Not present'', new = ''...'', label = ''a''\<rparr>,
      \<lparr>old = ''oo'', new = ''o'', label = ''b''\<rparr>] ''en/index.html''
     = (''<p>Godbye</p><b>Godbye</b>'', [''x:y:z'', ''b''])
   \<and> applies ''<p>Hello</p><b>Hello</b>'' []
     [\<lparr>old = ''Hello'', new = ''Goodbye'', label = ''x:y:z''\<rparr>,
      \<lparr>old = ''Not present'', new = ''...'', label = ''a''\<rparr>,
      \<lparr>old = ''oo'', new = ''o'', label = ''b''\<rparr>]
     (''<p>Godbye</p><b>Godbye</b>'', [''x:y:z'', ''b''])"
proof -
  have "apply_replacements ''<p>Hello</p><b>Hello</b>''
     [\<lparr>old = ''Hello'', new = ''Goodbye'', label = ''x:y:z''\<rparr>,
      \<lparr>old = ''Not present'', new = ''...'', label = ''a''\<rparr>,
      \<lparr>old = ''oo'', new = ''o'', label = ''b''\<rparr>] ''en/index.html''
     = (''<p>Godbye</p><b>Godbye</b>'', [''x:y:z'', ''b''])"
    by (simp add: apply_replacements_def)
  then show ?thesis
    using apply_replacements_in_rule_order [of "''<p>Hello</p><b>Hello</b>''"
     "[\<lparr>old = ''Hello'', new = ''Goodbye'', label = ''x:y:z''\<rparr>,
      \<lparr>old = ''Not present'', new = ''...'', label = ''a''\<rparr>,
      \<lparr>old = ''oo'', new = ''o'', label = ''b''\<rparr>]"
     "(''<p>Godbye</p><b>Godbye</b>'', [''x:y:z'', ''b''])" "''en/index.html''"]
    by simp
qed

text \<open>
  Claim C5.  A rule whose \<open>old\<close> does not occur in the text the rules before it produced is
  skipped: after its turn the text and the applied labels are what they were before it,
  the remaining rules go on from there, and the engine, a total function with no failure
  value, signals nothing.
\<close>

theorem absent_rule_is_skipped:
  assumes "apply_replacements text before file_label = (t1, l1)"
    and "\<not> sublist (old rule) t1"
  shows "apply_replacements text (before @ [rule]) file_label = (t1, l1)
       \<and> apply_replacements text (before @ rule # after) file_label
           = replacements_loop t1 l1 after"
  using assms by (simp add: apply_replacements_def loop_append str_in_sublist)

theorem absent_rule_is_skipped_witness:
  "apply_replacements ''<p>Hello world</p>'' [] ''en/index.html'' = (''<p>Hello world</p>'', [])
   \<and> \<not> sublist (old \<lparr>old = ''Not present'', new = ''...'', label = ''a''\<rparr>) ''<p>Hello world</p>''
   \<and> apply_replacements ''<p>Hello world</p>''
         ([] @ [\<lparr>old = ''Not present'', new = ''...'', label = ''a''\<rparr>]) ''en/index.html''
       = (''<p>Hello world</p>'', [])"
proof -
  have a: "apply_replacements ''<p>Hello world</p>'' [] ''en/index.html''
             = (''<p>Hello world</p>'', [])"
    by (simp add: apply_replacements_def)
  have b: "\<not> sublist (old \<lparr>old = ''Not present'', new = ''...'', label = ''a''\<rparr>)
               ''<p>Hello world</p>''"
    by (simp add: str_in_sublist [symmetric])
  show ?thesis
    using a b absent_rule_is_skipped [OF a b, of "[]"] by blast
qed

text \<open>
  Claim C9.  A rule whose \<open>old\<close> is the empty string always matches: its label is appended,
  and the text after its turn is the rule's \<open>new\<close> put in front of every character of the
  current text and once more behind the last one.
\<close>

theorem empty_old_matches_everywhere:
  assumes "apply_replacements text before file_label = (t1, l1)"
    and "old rule = []"
  shows "apply_replacements text (before @ [rule]) file_label
           = (concat (map (\<lambda>c. new rule @ [c]) t1) @ new rule, l1 @ [label rule])"
  using assms
  by (simp add: apply_replacements_def loop_append str_in_empty str_replace_empty)

theorem empty_old_matches_everywhere_witness:
  "apply_replacements ''abc'' [] ''f'' = (''abc'', [])
   \<and> old \<lparr>old = '''', new = ''-'', label = ''e''\<rparr> = []
   \<and> apply_replacements ''abc'' ([] @ [\<lparr>old = '''', new = ''-'', label = ''e''\<rparr>]) ''f''
       = (''-a-b-c-'', [''e''])"
proof -
  have a: "apply_replacements ''abc'' [] ''f'' = (''abc'', [])"
    by (simp add: apply_replacements_def)
  have b: "old \<lparr>old = '''', new = ''-'', label = ''e''\<rparr> = []"
    by simp
  show ?thesis
    using a b empty_old_matches_everywhere [OF a b] by simp
qed

text \<open>
  Claim C8.  Two calls with equal texts and equal rule lists, made in any two stores and
  with any file labels, return the same updated text and the same applied labels, which
  are those of \<open>apply_replacements\<close>.  Each call leaves every object that was in its store
  as it was, the list of rules included, and adds one object: the list of labels it
  returns.
\<close>

theorem apply_replacements_touches_nothing:
  assumes "ra1 < length h1" and "h1 ! ra1 = RuleList rules"
    and "ra2 < length h2" and "h2 ! ra2 = RuleList rules"
  shows "\<exists>updated changed.
           apply_replacements_heap h1 text ra1 file_label1
             = Some ((updated, length h1), h1 @ [LabelList changed])
         \<and> apply_replacements_heap h2 text ra2 file_label2
             = Some ((updated, length h2), h2 @ [LabelList changed])
         \<and> (updated, changed) = apply_replacements text rules file_label1"
  using heap_loop_runs [OF assms(1,2), of 0 "[]" "text"]
    heap_loop_runs [OF assms(3,4), of 0 "[]" "text"]
  by (simp add: apply_replacements_heap_def apply_replacements_def)

theorem apply_replacements_touches_nothing_witness:
  "apply_replacements_heap [RuleList [\<lparr>old = ''ab'', new = ''b'', label = ''L''\<rparr>]]
      ''aab-ab'' 0 ''en/index.html''
     = Some ((''ab-b'', 1),
         [RuleList [\<lparr>old = ''ab'', new = ''b'', label = ''L''\<rparr>], LabelList [''L'']])
   \<and> apply_replacements_heap
      [LabelList [''kept''], RuleList [\<lparr>old = ''ab'', new = ''b'', label = ''L''\<rparr>]]
      ''aab-ab'' 1 ''de/index.html''
     = Some ((''ab-b'', 2),
         [LabelList [''kept''], RuleList [\<lparr>old = ''ab'', new = ''b'', label = ''L''\<rparr>],
          LabelList [''L'']])"
proof -
  have a: "(0::nat) < length [RuleList [\<lparr>old = ''ab'', new = ''b'', label = ''L''\<rparr>]]"
    and b: "[RuleList [\<lparr>old = ''ab'', new = ''b'', label = ''L''\<rparr>]] ! 0
              = RuleList [\<lparr>old = ''ab'', new = ''b'', label = ''L''\<rparr>]"
    and c: "(1::nat) < length
              [LabelList [''kept''], RuleList [\<lparr>old = ''ab'', new = ''b'', label = ''L''\<rparr>]]"
    and d: "[LabelList [''kept''], RuleList [\<lparr>old = ''ab'', new = ''b'', label = ''L''\<rparr>]] ! 1
              = RuleList [\<lparr>old = ''ab'', new = ''b'', label = ''L''\<rparr>]"
    by simp_all
  have e: "apply_replacements ''aab-ab'' [\<lparr>old = ''ab'', new = ''b'', label = ''L''\<rparr>]
             ''en/index.html'' = (''ab-b'', [''L''])"
    by (simp add: apply_replacements_def)
  from apply_replacements_touches_nothing [OF a b c d,
      of "''aab-ab''" "''en/index.html''" "''de/index.html''"] e
  show ?thesis by auto
qed

text \<open>
  Claim C4, as stated, fails.  With the rules \<open>ab \<mapsto> b\<close> and \<open>xy \<mapsto> z\<close>, neither of whose
  \<open>new\<close> texts contains an \<open>old\<close> text, the text \<open>aab-xy\<close> becomes \<open>ab-z\<close>: replacing closes
  the gap between the first \<open>a\<close> and the \<open>b\<close>, so a second pass still finds \<open>ab\<close> and changes
  the text again, and it reports one label where the first pass reported two.
\<close>

theorem idempotence_counterexample:
  "no_reintroduction
     [\<lparr>old = ''ab'', new = ''b'', label = ''L1''\<rparr>, \<lparr>old = ''xy'', new = ''z'', label = ''L2''\<rparr>]
   \<and> \<not> sublist ''ab'' ''b'' \<and> \<not> sublist ''xy'' ''z''
   \<and> apply_replacements ''aab-xy''
       [\<lparr>old = ''ab'', new = ''b'', label = ''L1''\<rparr>, \<lparr>old = ''xy'', new = ''z'', label = ''L2''\<rparr>]
       ''f''
       = (''ab-z'', [''L1'', ''L2''])
   \<and> apply_replacements ''ab-z''
       [\<lparr>old = ''ab'', new = ''b'', label = ''L1''\<rparr>, \<lparr>old = ''xy'', new = ''z'', label = ''L2''\<rparr>]
       ''f''
       = (''b-z'', [''L1''])
   \<and> (''b-z'', [''L1'']) \<noteq> (''ab-z'', [''L1'', ''L2''])"
  by (simp add: no_reintroduction_def apply_replacements_def less_Suc_eq
      str_in_sublist [symmetric])

text \<open>
  Claim C4, amended.  When no rule's \<open>old\<close> is empty and no rule's \<open>new\<close> text can touch an
  occurrence of any rule's \<open>old\<close> text, its own included, applying the engine to its own
  output with the same rules returns that output unchanged and applies no label.
\<close>

theorem second_pass_changes_nothing:
  assumes "overlap_free rules"
  shows "apply_replacements (fst (apply_replacements text rules file_label)) rules file_label'
           = (fst (apply_replacements text rules file_label), [])"
proof -
  have "\<forall>r \<in> set rules. \<not> str_in (old r) (fst (apply_replacements text rules file_label))"
    using loop_leaves_no_old [OF assms] by (simp add: apply_replacements_def str_in_sublist)
  then show ?thesis
    by (simp add: apply_replacements_def loop_no_match)
qed

theorem second_pass_changes_nothing_witness:
  "overlap_free
     [\<lparr>old = ''Hello world'', new = ''Goodbye world'', label = ''x:y:z''\<rparr>,
      \<lparr>old = ''No hype.'', new = ''Less hype.'', label = ''a''\<rparr>]
   \<and> apply_replacements ''<p>Hello world</p><i>No hype.</i> Hello world''
       [\<lparr>old = ''Hello world'', new = ''Goodbye world'', label = ''x:y:z''\<rparr>,
      \<lparr>old = ''No hype.'', new = ''Less hype.'', label = ''a''\<rparr>] ''f''
       = (''<p>Goodbye world</p><i>Less hype.</i> Goodbye world'', [''x:y:z'', ''a''])
   \<and> apply_replacements ''<p>Goodbye world</p><i>Less hype.</i> Goodbye world''
       [\<lparr>old = ''Hello world'', new = ''Goodbye world'', label = ''x:y:z''\<rparr>,
      \<lparr>old = ''No hype.'', new = ''Less hype.'', label = ''a''\<rparr>] ''f''
       = (''<p>Goodbye world</p><i>Less hype.</i> Goodbye world'', [])"
proof -
  have free: "overlap_free
     [\<lparr>old = ''Hello world'', new = ''Goodbye world'', label = ''x:y:z''\<rparr>,
      \<lparr>old = ''No hype.'', new = ''Less hype.'', label = ''a''\<rparr>]"
    by (simp add: overlap_free_def clash_touches touches_def comparable_def)
  have once: "apply_replacements ''<p>Hello world</p><i>No hype.</i> Hello world''
       [\<lparr>old = ''Hello world'', new = ''Goodbye world'', label = ''x:y:z''\<rparr>,
      \<lparr>old = ''No hype.'', new = ''Less hype.'', label = ''a''\<rparr>] ''f''
       = (''<p>Goodbye world</p><i>Less hype.</i> Goodbye world'', [''x:y:z'', ''a''])"
    by (simp add: apply_replacements_def)
  from second_pass_changes_nothing [OF free, of "''<p>Hello world</p><i>No hype.</i> Hello world''" "''f''" "''f''"] free once
  show ?thesis by simp
qed

text \<open>
  Both parts of the proviso are needed: an empty \<open>old\<close> matches again on every pass, and a
  \<open>new\<close> that contains its own \<open>old\<close> is replaced again.
\<close>

lemma proviso_is_needed:
  "apply_replacements ''a'' [\<lparr>old = '''', new = ''-'', label = ''e''\<rparr>] ''f'' = (''-a-'', [''e''])
   \<and> apply_replacements ''-a-'' [\<lparr>old = '''', new = ''-'', label = ''e''\<rparr>] ''f''
       = (''---a---'', [''e''])
   \<and> apply_replacements ''a'' [\<lparr>old = ''a'', new = ''aa'', label = ''d''\<rparr>] ''f'' = (''aa'', [''d''])
   \<and> apply_replacements ''aa'' [\<lparr>old = ''a'', new = ''aa'', label = ''d''\<rparr>] ''f''
       = (''aaaa'', [''d''])"
  by (simp add: apply_replacements_def)

section \<open>Properties of the driver\<close>

text \<open>The six ways one pass of the loop can go.\<close>

lemma process_target_cases [case_names missing unreadable unchanged edit_check edit_write edit_fail]:
  obtains
    "files st p = None"
    "process_target check (p, rs) st = Inr (st\<lparr>console := console st @ [warn_line p]\<rparr>)"
  | e where "files st p = Some e" "text_of e = None"
    "process_target check (p, rs) st = Inl (ReadFailed p, st)"
  | e original where "files st p = Some e" "text_of e = Some original"
    "snd (apply_replacements original rs p) = []"
    "process_target check (p, rs) st = Inr (st\<lparr>console := console st @ [ok_line p]\<rparr>)"
  | e original where "files st p = Some e" "text_of e = Some original"
    "snd (apply_replacements original rs p) \<noteq> []" "check"
    "process_target check (p, rs) st =
       Inr (st\<lparr>any_changed := True,
               console := console st @ [edit_line p (snd (apply_replacements original rs p))]\<rparr>)"
  | e original where "files st p = Some e" "text_of e = Some original"
    "snd (apply_replacements original rs p) \<noteq> []" "\<not> check" "writable e"
    "process_target check (p, rs) st =
       Inr (st\<lparr>any_changed := True,
               console := console st @ [edit_line p (snd (apply_replacements original rs p))],
               files := (files st)(p \<mapsto> Entry (Some (fst (apply_replacements original rs p))) True),
               written := written st @ [p]\<rparr>)"
  | e original where "files st p = Some e" "text_of e = Some original"
    "snd (apply_replacements original rs p) \<noteq> []" "\<not> check" "\<not> writable e"
    "process_target check (p, rs) st =
       Inl (WriteFailed p,
            st\<lparr>any_changed := True,
               console := console st @ [edit_line p (snd (apply_replacements original rs p))]\<rparr>)"
proof (cases "files st p")
  case None
  then show ?thesis using that(1) by (simp add: process_target_def)
next
  case (Some e)
  show ?thesis
  proof (cases "text_of e")
    case None
    with Some show ?thesis using that(2) by (simp add: process_target_def)
  next
    case (Some original)
    note orig = this
    obtain updated changed where ap: "apply_replacements original rs p = (updated, changed)"
      by (cases "apply_replacements original rs p")
    show ?thesis
    proof (cases "changed = []")
      case True
      with \<open>files st p = Some e\<close> orig ap show ?thesis
        using that(3) [of e original] by (simp add: process_target_def)
    next
      case False
      show ?thesis
      proof (cases check)
        case True
        with False \<open>files st p = Some e\<close> orig ap show ?thesis
          using that(4) [of e original] by (simp add: process_target_def Let_def)
      next
        case nc: False
        show ?thesis
        proof (cases "writable e")
          case True
          with nc False \<open>files st p = Some e\<close> orig ap show ?thesis
            using that(5) [of e original] by (simp add: process_target_def Let_def)
        next
          case nw: False
          with nc False \<open>files st p = Some e\<close> orig ap show ?thesis
            using that(6) [of e original] by (simp add: process_target_def Let_def)
        qed
      qed
    qed
  qed
qed

lemma process_targets_append:
  "process_targets check (xs @ ys) st =
     (case process_targets check xs st of
        Inl failure \<Rightarrow> Inl failure
      | Inr st' \<Rightarrow> process_targets check ys st')"
  by (induction xs arbitrary: st) (simp_all split: sum.splits)

text \<open>What one pass does when it returns.\<close>

lemma process_target_returns:
  assumes "process_target check (p, rs) st = Inr st1"
  shows "console st1 = console st @ [expected_report (files st) (p, rs)]"
    and "any_changed st1 = (any_changed st \<or> would_edit (files st) (p, rs))"
    and "\<forall>q. q \<noteq> p \<longrightarrow> files st1 q = files st q"
    and "\<forall>e. files st p = Some e \<longrightarrow> text_of e \<noteq> None"
    and "check \<longrightarrow> files st1 = files st \<and> written st1 = written st"
  using assms
  by (cases rule: process_target_cases [of st p check rs];
      auto simp: expected_report_def would_edit_def)+


lemma expected_report_cong:
  "fs (fst t) = fs' (fst t) \<Longrightarrow> expected_report fs t = expected_report fs' t"
  by (simp add: expected_report_def)

lemma would_edit_cong:
  "fs (fst t) = fs' (fst t) \<Longrightarrow> would_edit fs t = would_edit fs' t"
  by (simp add: would_edit_def)

text \<open>
  The run over distinct paths: each target is judged on the file as it was at the start,
  so the lines printed and the flag are functions of the initial files.
\<close>

lemma console_of_run:
  assumes "distinct (map fst ts)" and "process_targets check ts st = Inr st'"
  shows "console st' = console st @ map (expected_report (files st)) ts
       \<and> any_changed st' = (any_changed st \<or> (\<exists>t \<in> set ts. would_edit (files st) t))
       \<and> (\<forall>t \<in> set ts. \<forall>e. files st (fst t) = Some e \<longrightarrow> text_of e \<noteq> None)"
  using assms
proof (induction ts arbitrary: st)
  case Nil
  then show ?case by simp
next
  case (Cons t ts)
  obtain p rs where t: "t = (p, rs)" by (cases t)
  from Cons.prems(2) obtain st1 where
    one: "process_target check (p, rs) st = Inr st1" and
    more: "process_targets check ts st1 = Inr st'"
    by (auto simp: t split: sum.splits)
  have away: "\<forall>u \<in> set ts. fst u \<noteq> p"
    using Cons.prems(1) by (auto simp: t)
  have same: "\<forall>u \<in> set ts. files st1 (fst u) = files st (fst u)"
    using process_target_returns(3) [OF one] away by simp
  have ih: "console st' = console st1 @ map (expected_report (files st1)) ts
       \<and> any_changed st' = (any_changed st1 \<or> (\<exists>t \<in> set ts. would_edit (files st1) t))
       \<and> (\<forall>t \<in> set ts. \<forall>e. files st1 (fst t) = Some e \<longrightarrow> text_of e \<noteq> None)"
    using Cons.IH [OF _ more] Cons.prems(1) by simp
  have local: "\<And>u. u \<in> set ts \<Longrightarrow> files st1 (fst u) = files st (fst u)"
    using same by blast
  have reports: "map (expected_report (files st1)) ts = map (expected_report (files st)) ts"
  proof (rule map_cong [OF refl])
    fix u assume "u \<in> set ts"
    then show "expected_report (files st1) u = expected_report (files st) u"
      by (intro expected_report_cong local)
  qed
  have edit_same: "\<And>u. u \<in> set ts \<Longrightarrow> would_edit (files st1) u = would_edit (files st) u"
    by (intro would_edit_cong local)
  have edits: "(\<exists>t \<in> set ts. would_edit (files st1) t) = (\<exists>t \<in> set ts. would_edit (files st) t)"
    using edit_same by blast
  have readable: "\<forall>t \<in> set ts. \<forall>e. files st (fst t) = Some e \<longrightarrow> text_of e \<noteq> None"
  proof (intro ballI allI impI)
    fix u e assume u: "u \<in> set ts" and "files st (fst u) = Some e"
    then have "files st1 (fst u) = Some e" using local by simp
    with u ih show "text_of e \<noteq> None" by blast
  qed
  have c1: "console st' = console st @ map (expected_report (files st)) (t # ts)"
    using ih reports process_target_returns(1) [OF one] by (simp add: t)
  have c2: "any_changed st' = (any_changed st \<or> (\<exists>t \<in> set (t # ts). would_edit (files st) t))"
    using ih edits process_target_returns(2) [OF one] by (simp add: t)
  have c3: "\<forall>t \<in> set (t # ts). \<forall>e. files st (fst t) = Some e \<longrightarrow> text_of e \<noteq> None"
    using readable process_target_returns(4) [OF one] by (simp add: t)
  show ?case
    using c1 c2 c3 by blast
qed

text \<open>In check mode nothing is written, however the run ends.\<close>

lemma check_mode_writes_nothing:
  "files (state_reached (process_targets True ts st)) = files st
   \<and> written (state_reached (process_targets True ts st)) = written st"
proof (induction ts arbitrary: st)
  case Nil
  then show ?case by (simp add: state_reached_def)
next
  case (Cons t ts)
  obtain p rs where t: "t = (p, rs)" by (cases t)
  show ?case
  proof (cases "process_target True (p, rs) st")
    case (Inl failure)
    then show ?thesis
      by (cases rule: process_target_cases [of st p True rs])
        (auto simp: t state_reached_def)
  next
    case (Inr st1)
    then show ?thesis
      using Cons.IH [of st1] process_target_returns(5) [OF Inr] by (simp add: t)
  qed
qed

text \<open>A check run returns when every target that is there can be read.\<close>

lemma check_mode_returns:
  assumes "\<forall>t \<in> set ts. \<forall>e. files st (fst t) = Some e \<longrightarrow> text_of e \<noteq> None"
  shows "\<exists>st'. process_targets True ts st = Inr st'"
  using assms
proof (induction ts arbitrary: st)
  case Nil
  then show ?case by simp
next
  case (Cons t ts)
  obtain p rs where t: "t = (p, rs)" by (cases t)
  obtain st1 where one: "process_target True (p, rs) st = Inr st1"
    using Cons.prems by (cases rule: process_target_cases [of st p True rs]) (auto simp: t)
  have "files st1 = files st"
    using process_target_returns(5) [OF one] by simp
  then show ?case
    using Cons.IH [of st1] Cons.prems one by (simp add: t)
qed

lemma main_outcome:
  "main check ts fs =
     (case process_targets check ts (initial_state fs) of
        Inl failure \<Rightarrow> Inl failure
      | Inr st \<Rightarrow>
          Inr (0, if \<not> check \<and> \<not> any_changed st
                    then st\<lparr>console := console st @ [summary_line]\<rparr> else st))"
  by (simp add: main_def split: sum.splits)

text \<open>A run over usable files raises nothing.\<close>

lemma process_targets_returns:
  assumes "\<forall>t \<in> set ts. \<forall>e. files st (fst t) = Some e \<longrightarrow> usable e"
  shows "\<exists>st'. process_targets check ts st = Inr st'"
  using assms
proof (induction ts arbitrary: st)
  case Nil
  then show ?case by simp
next
  case (Cons t ts)
  obtain p rs where t: "t = (p, rs)" by (cases t)
  have here: "\<forall>e. files st p = Some e \<longrightarrow> usable e"
    using Cons.prems by (simp add: t)
  obtain st1 where one: "process_target check (p, rs) st = Inr st1"
    and kept: "\<forall>q e. files st1 q = Some e \<longrightarrow> files st q = Some e \<or> usable e"
    using here
    by (cases rule: process_target_cases [of st p check rs]) (auto simp: usable_def)
  have "\<forall>t \<in> set ts. \<forall>e. files st1 (fst t) = Some e \<longrightarrow> usable e"
    using Cons.prems kept by (metis list.set_intros(2))
  then show ?case
    using Cons.IH [of st1] one by (simp add: t)
qed

lemma main_returns_on_usable_files:
  assumes "\<forall>t \<in> set targets. \<forall>e. fs (fst t) = Some e \<longrightarrow> usable e"
  shows "exit_of (main check targets fs) = Inr 0"
proof -
  have "\<forall>t \<in> set targets. \<forall>e. files (initial_state fs) (fst t) = Some e \<longrightarrow> usable e"
    using assms by (simp add: initial_state_def)
  then obtain st' where "process_targets check targets (initial_state fs) = Inr st'"
    using process_targets_returns by blast
  then show ?thesis
    by (simp add: main_outcome exit_of_def)
qed

lemma state_reached_Cons:
  "state_reached (process_targets check (t # ts) st) =
     (case process_target check t st of
        Inl failure \<Rightarrow> snd failure
      | Inr st1 \<Rightarrow> state_reached (process_targets check ts st1))"
  by (simp add: state_reached_def split: sum.splits prod.splits)

lemma main_effects:
  "files (final_state (main check ts fs))
     = files (state_reached (process_targets check ts (initial_state fs)))"
  "written (final_state (main check ts fs))
     = written (state_reached (process_targets check ts (initial_state fs)))"
  by (simp_all add: main_outcome final_state_def state_reached_def split: sum.splits prod.splits)

text \<open>One pass leaves every other path as it is: its file and whether it was written.\<close>

lemma process_target_elsewhere:
  assumes "q \<noteq> p"
  shows "files (state_reached (process_target check (q, rs) st)) p = files st p"
    and "p \<in> set (written (state_reached (process_target check (q, rs) st)))
           \<longleftrightarrow> p \<in> set (written st)"
  using assms
  by (cases rule: process_target_cases [of st q check rs]; simp add: state_reached_def)+

lemma other_paths_untouched:
  assumes "p \<notin> fst ` set ts"
  shows "files (state_reached (process_targets check ts st)) p = files st p
       \<and> (p \<in> set (written (state_reached (process_targets check ts st)))
            \<longleftrightarrow> p \<in> set (written st))"
  using assms
proof (induction ts arbitrary: st)
  case Nil
  then show ?case by (simp add: state_reached_def)
next
  case (Cons t ts)
  obtain q rs where t: "t = (q, rs)" by (cases t)
  have q: "q \<noteq> p" and rest: "p \<notin> fst ` set ts"
    using Cons.prems by (auto simp: t)
  note here = process_target_elsewhere [OF q, of check rs st]
  show ?case
  proof (cases "process_target check (q, rs) st")
    case (Inl failure)
    then show ?thesis
      using here by (simp add: state_reached_Cons t state_reached_def split: prod.splits)
  next
    case (Inr st1)
    then have "files st1 p = files st p" "p \<in> set (written st1) \<longleftrightarrow> p \<in> set (written st)"
      using here by (simp_all add: state_reached_def)
    then show ?thesis
      using Cons.IH [OF rest, of st1] Inr by (simp add: state_reached_Cons t)
  qed
qed

lemma unmatched_file_not_written:
  assumes "distinct (map fst ts)" and "(p, rs) \<in> set ts"
    and "files st p = Some e" and "text_of e = Some original"
    and "snd (apply_replacements original rs p) = []"
    and "p \<notin> set (written st)"
  shows "files (state_reached (process_targets check ts st)) p = Some e
       \<and> p \<notin> set (written (state_reached (process_targets check ts st)))"
  using assms(1,2,3,6)
proof (induction ts arbitrary: st)
  case Nil
  then show ?case by simp
next
  case (Cons t ts)
  show ?case
  proof (cases "t = (p, rs)")
    case True
    have rest: "p \<notin> fst ` set ts"
      using Cons.prems(1) True by auto
    have one: "process_target check (p, rs) st = Inr (st\<lparr>console := console st @ [ok_line p]\<rparr>)"
      using Cons.prems(3) assms(4,5)
      by (cases rule: process_target_cases [of st p check rs]) auto
    show ?thesis
      using other_paths_untouched [OF rest, of check "st\<lparr>console := console st @ [ok_line p]\<rparr>"]
        one Cons.prems(3,4)
      by (simp add: state_reached_Cons True)
  next
    case False
    obtain q rs' where t: "t = (q, rs')" by (cases t)
    have later: "(p, rs) \<in> set ts"
      using Cons.prems(2) False by simp
    then have q: "q \<noteq> p"
      using Cons.prems(1) by (force simp: t)
    note here = process_target_elsewhere [OF q, of check rs' st]
    show ?thesis
    proof (cases "process_target check (q, rs') st")
      case (Inl failure)
      then show ?thesis
        using here Cons.prems(3,4)
        by (simp add: state_reached_Cons t state_reached_def split: prod.splits)
    next
      case (Inr st1)
      then have "files st1 p = Some e" "p \<notin> set (written st1)"
        using here Cons.prems(3,4) by (simp_all add: state_reached_def)
      then show ?thesis
        using Cons.IH [OF _ later, of st1] Cons.prems(1) Inr
        by (simp add: state_reached_Cons t)
    qed
  qed
qed

text \<open>Unfolding a run on concrete files.\<close>

lemmas run_simps = main_def initial_state_def process_target_def apply_replacements_def
  final_state_def exit_of_def warn_line_def ok_line_def edit_line_def summary_line_def Let_def

text \<open>
  Claim C7.  In either mode, a run in which no read or write raises returns, and the exit
  status it returns is 0, whether or not a file changed or was missing.
\<close>

theorem exit_status_zero:
  assumes "\<forall>failure st. main check targets fs \<noteq> Inl (failure, st)"
  shows "\<exists>st. main check targets fs = Inr (0, st)"
  using assms by (cases "process_targets check targets (initial_state fs)") (auto simp: main_outcome)

theorem exit_status_zero_witness:
  "(\<exists>st. main False
      [(''a.html'', [\<lparr>old = ''ab'', new = ''b'', label = ''L''\<rparr>]),
       (''c.html'', [\<lparr>old = ''ab'', new = ''b'', label = ''L''\<rparr>])]
      [''a.html'' \<mapsto> Entry (Some ''xaby'') True] = Inr (0, st))
   \<and> console (final_state (main False
      [(''a.html'', [\<lparr>old = ''ab'', new = ''b'', label = ''L''\<rparr>]),
       (''c.html'', [\<lparr>old = ''ab'', new = ''b'', label = ''L''\<rparr>])]
      [''a.html'' \<mapsto> Entry (Some ''xaby'') True]))
      = [''[EDIT] a.html -> L'', ''[WARN] Missing: c.html'']"
proof -
  have "\<forall>failure st. main False
      [(''a.html'', [\<lparr>old = ''ab'', new = ''b'', label = ''L''\<rparr>]),
       (''c.html'', [\<lparr>old = ''ab'', new = ''b'', label = ''L''\<rparr>])]
      [''a.html'' \<mapsto> Entry (Some ''xaby'') True] \<noteq> Inl (failure, st)"
    by (simp add: run_simps)
  from exit_status_zero [OF this] show ?thesis
    by (simp add: run_simps)
qed

text \<open>
  Claim C10.  In apply mode, a target file that is there and in which no rule matched is
  never written: \<^verbatim>\<open>write_text\<close> is not called on it, and its entry is the one the run
  found.
\<close>

theorem unmatched_file_is_not_written:
  assumes "distinct (map fst targets)" and "(p, rules) \<in> set targets"
    and "fs p = Some e" and "text_of e = Some original"
    and "snd (apply_replacements original rules p) = []"
  shows "p \<notin> set (written (final_state (main False targets fs)))
       \<and> files (final_state (main False targets fs)) p = Some e"
  using unmatched_file_not_written [OF assms(1,2) _ assms(4,5), of "initial_state fs" False]
    assms(3)
  by (simp add: main_effects initial_state_def)

theorem unmatched_file_is_not_written_witness:
  "written (final_state (main False
      [(''a.html'', [\<lparr>old = ''ab'', new = ''b'', label = ''L''\<rparr>]),
       (''b.html'', [\<lparr>old = ''ab'', new = ''b'', label = ''L''\<rparr>])]
      [''a.html'' \<mapsto> Entry (Some ''xaby'') True, ''b.html'' \<mapsto> Entry (Some ''zz'') True]))
     = [''a.html'']
   \<and> ''b.html'' \<notin> set (written (final_state (main False
      [(''a.html'', [\<lparr>old = ''ab'', new = ''b'', label = ''L''\<rparr>]),
       (''b.html'', [\<lparr>old = ''ab'', new = ''b'', label = ''L''\<rparr>])]
      [''a.html'' \<mapsto> Entry (Some ''xaby'') True, ''b.html'' \<mapsto> Entry (Some ''zz'') True])))
   \<and> files (final_state (main False
      [(''a.html'', [\<lparr>old = ''ab'', new = ''b'', label = ''L''\<rparr>]),
       (''b.html'', [\<lparr>old = ''ab'', new = ''b'', label = ''L''\<rparr>])]
      [''a.html'' \<mapsto> Entry (Some ''xaby'') True, ''b.html'' \<mapsto> Entry (Some ''zz'') True]))
      ''b.html'' = Some (Entry (Some ''zz'') True)"
proof -
  have "''b.html'' \<notin> set (written (final_state (main False
      [(''a.html'', [\<lparr>old = ''ab'', new = ''b'', label = ''L''\<rparr>]),
       (''b.html'', [\<lparr>old = ''ab'', new = ''b'', label = ''L''\<rparr>])]
      [''a.html'' \<mapsto> Entry (Some ''xaby'') True, ''b.html'' \<mapsto> Entry (Some ''zz'') True])))
   \<and> files (final_state (main False
      [(''a.html'', [\<lparr>old = ''ab'', new = ''b'', label = ''L''\<rparr>]),
       (''b.html'', [\<lparr>old = ''ab'', new = ''b'', label = ''L''\<rparr>])]
      [''a.html'' \<mapsto> Entry (Some ''xaby'') True, ''b.html'' \<mapsto> Entry (Some ''zz'') True]))
      ''b.html'' = Some (Entry (Some ''zz'') True)"
    by (rule unmatched_file_is_not_written
          [where original = "''zz''" and rules = "[\<lparr>old = ''ab'', new = ''b'', label = ''L''\<rparr>]"])
      (simp_all add: apply_replacements_def)
  moreover have "written (final_state (main False
      [(''a.html'', [\<lparr>old = ''ab'', new = ''b'', label = ''L''\<rparr>]),
       (''b.html'', [\<lparr>old = ''ab'', new = ''b'', label = ''L''\<rparr>])]
      [''a.html'' \<mapsto> Entry (Some ''xaby'') True, ''b.html'' \<mapsto> Entry (Some ''zz'') True]))
     = [''a.html'']"
    by (simp add: run_simps)
  ultimately show ?thesis by blast
qed

text \<open>A missing path stays missing: the driver creates no file.\<close>

lemma process_target_creates_nothing:
  "files st p = None \<Longrightarrow> files (state_reached (process_target check (q, rs) st)) p = None"
  by (cases rule: process_target_cases [of st q check rs]) (auto simp: state_reached_def)

text \<open>What was printed before has no influence on what a pass does next.\<close>

lemma process_target_same_effects:
  assumes "same_effects a b"
  shows "rel_sum (rel_prod (=) same_effects) same_effects
           (process_target check t a) (process_target check t b)"
proof -
  obtain p rs where t: "t = (p, rs)" by (cases t)
  have f: "files a = files b" and w: "written a = written b"
    and c: "any_changed a = any_changed b"
    using assms by (simp_all add: same_effects_def)
  show ?thesis
    unfolding t
    by (cases rule: process_target_cases [of b p check rs];
        cases rule: process_target_cases [of a p check rs];
        simp add: f w c same_effects_def)
qed

lemma process_targets_same_effects:
  assumes "same_effects a b"
  shows "rel_sum (rel_prod (=) same_effects) same_effects
           (process_targets check ts a) (process_targets check ts b)"
  using assms
proof (induction ts arbitrary: a b)
  case Nil
  then show ?case by simp
next
  case (Cons t ts)
  show ?case
  proof (cases "process_target check t a")
    case (Inl x)
    then show ?thesis
      using process_target_same_effects [OF Cons.prems, of check t]
      by (cases "process_target check t b") simp_all
  next
    case (Inr a1)
    then obtain b1 where b1: "process_target check t b = Inr b1" and "same_effects a1 b1"
      using process_target_same_effects [OF Cons.prems, of check t]
      by (cases "process_target check t b") simp_all
    then show ?thesis
      using Cons.IH [of a1 b1] Inr by simp
  qed
qed

lemma main_same_effects:
  assumes "rel_sum (rel_prod (=) same_effects) same_effects
             (process_targets check ts (initial_state fs))
             (process_targets check ts' (initial_state fs))"
  shows "exit_of (main check ts fs) = exit_of (main check ts' fs)
       \<and> same_effects (final_state (main check ts fs)) (final_state (main check ts' fs))"
proof (cases "process_targets check ts (initial_state fs)")
  case (Inl x)
  then obtain y where "process_targets check ts' (initial_state fs) = Inl y"
    and "rel_prod (=) same_effects x y"
    using assms by (cases "process_targets check ts' (initial_state fs)") simp_all
  with Inl show ?thesis
    by (cases x; cases y) (simp add: main_outcome exit_of_def final_state_def)
next
  case (Inr a)
  then obtain b where "process_targets check ts' (initial_state fs) = Inr b"
    and "same_effects a b"
    using assms by (cases "process_targets check ts' (initial_state fs)") simp_all
  with Inr show ?thesis
    by (simp add: main_outcome exit_of_def final_state_def same_effects_def)
qed

text \<open>
  Claim C6.  When the loop reaches a target whose file does not exist, it prints the
  warning for that path and goes on with the remaining targets from a state in which
  nothing else has changed; nothing is raised there.  The run then ends as it would
  without that target: the same exception or the same exit status, the same files, the
  same writes.
\<close>

theorem missing_file_warns_and_continues:
  assumes "fs p = None"
    and "process_targets check before (initial_state fs) = Inr st"
  shows "process_targets check (before @ (p, rules) # rest) (initial_state fs)
           = process_targets check rest (st\<lparr>console := console st @ [warn_line p]\<rparr>)
       \<and> exit_of (main check (before @ (p, rules) # rest) fs)
           = exit_of (main check (before @ rest) fs)
       \<and> same_effects (final_state (main check (before @ (p, rules) # rest) fs))
            (final_state (main check (before @ rest) fs))"
proof -
  have "files (state_reached (process_targets check before (initial_state fs))) p = fs p"
  proof (induction before rule: rev_induct)
    case Nil
    then show ?case by (simp add: state_reached_def initial_state_def)
  next
    case (snoc t ts)
    obtain q rs where t: "t = (q, rs)" by (cases t)
    show ?case
    proof (cases "process_targets check ts (initial_state fs)")
      case (Inl failure)
      then show ?thesis
        using snoc by (simp add: process_targets_append)
    next
      case (Inr st1)
      then have "files st1 p = None"
        using snoc assms(1) by (simp add: state_reached_def)
      from process_target_creates_nothing [OF this, of check q rs] show ?thesis
        using Inr assms(1)
        by (simp add: process_targets_append t state_reached_def split: sum.splits prod.splits)
    qed
  qed
  then have missing: "files st p = None"
    using assms by (simp add: state_reached_def)
  have one: "process_target check (p, rules) st
               = Inr (st\<lparr>console := console st @ [warn_line p]\<rparr>)"
    using missing by (cases rule: process_target_cases [of st p check rules]) simp_all
  have incl: "process_targets check (before @ (p, rules) # rest) (initial_state fs)
           = process_targets check rest (st\<lparr>console := console st @ [warn_line p]\<rparr>)"
    using assms(2) one by (simp add: process_targets_append)
  have excl: "process_targets check (before @ rest) (initial_state fs)
           = process_targets check rest st"
    using assms(2) by (simp add: process_targets_append)
  have "same_effects (st\<lparr>console := console st @ [warn_line p]\<rparr>) st"
    by (simp add: same_effects_def)
  from process_targets_same_effects [OF this, of check rest]
  have "rel_sum (rel_prod (=) same_effects) same_effects
          (process_targets check (before @ (p, rules) # rest) (initial_state fs))
          (process_targets check (before @ rest) (initial_state fs))"
    by (simp only: incl excl)
  from main_same_effects [OF this] incl show ?thesis
    by blast
qed

theorem missing_file_warns_and_continues_witness:
  "exit_of (main False
      ([(''a.html'', [\<lparr>old = ''ab'', new = ''b'', label = ''L''\<rparr>])]
        @ (''c.html'', [\<lparr>old = ''ab'', new = ''b'', label = ''L''\<rparr>])
        # [(''b.html'', [\<lparr>old = ''ab'', new = ''b'', label = ''L''\<rparr>])])
      [''a.html'' \<mapsto> Entry (Some ''xaby'') True, ''b.html'' \<mapsto> Entry (Some ''zz'') True])
   = exit_of (main False
      ([(''a.html'', [\<lparr>old = ''ab'', new = ''b'', label = ''L''\<rparr>])]
        @ [(''b.html'', [\<lparr>old = ''ab'', new = ''b'', label = ''L''\<rparr>])])
      [''a.html'' \<mapsto> Entry (Some ''xaby'') True, ''b.html'' \<mapsto> Entry (Some ''zz'') True])
   \<and> console (final_state (main False
      ([(''a.html'', [\<lparr>old = ''ab'', new = ''b'', label = ''L''\<rparr>])]
        @ (''c.html'', [\<lparr>old = ''ab'', new = ''b'', label = ''L''\<rparr>])
        # [(''b.html'', [\<lparr>old = ''ab'', new = ''b'', label = ''L''\<rparr>])])
      [''a.html'' \<mapsto> Entry (Some ''xaby'') True, ''b.html'' \<mapsto> Entry (Some ''zz'') True]))
   = [''[EDIT] a.html -> L'', ''[WARN] Missing: c.html'', ''[OK]   b.html (no changes)'']"
proof -
  have gone: "[''a.html'' \<mapsto> Entry (Some ''xaby'') True, ''b.html'' \<mapsto> Entry (Some ''zz'') True]
                ''c.html'' = None"
    by simp
  obtain st where reached: "process_targets False
      [(''a.html'', [\<lparr>old = ''ab'', new = ''b'', label = ''L''\<rparr>])]
      (initial_state
        [''a.html'' \<mapsto> Entry (Some ''xaby'') True, ''b.html'' \<mapsto> Entry (Some ''zz'') True])
      = Inr st"
    by (simp add: run_simps)
  have "exit_of (main False
      ([(''a.html'', [\<lparr>old = ''ab'', new = ''b'', label = ''L''\<rparr>])]
        @ (''c.html'', [\<lparr>old = ''ab'', new = ''b'', label = ''L''\<rparr>])
        # [(''b.html'', [\<lparr>old = ''ab'', new = ''b'', label = ''L''\<rparr>])])
      [''a.html'' \<mapsto> Entry (Some ''xaby'') True, ''b.html'' \<mapsto> Entry (Some ''zz'') True])
   = exit_of (main False
      ([(''a.html'', [\<lparr>old = ''ab'', new = ''b'', label = ''L''\<rparr>])]
        @ [(''b.html'', [\<lparr>old = ''ab'', new = ''b'', label = ''L''\<rparr>])])
      [''a.html'' \<mapsto> Entry (Some ''xaby'') True, ''b.html'' \<mapsto> Entry (Some ''zz'') True])"
    using missing_file_warns_and_continues [OF gone reached] by (rule conjunct1 [OF conjunct2])
  moreover have "console (final_state (main False
      ([(''a.html'', [\<lparr>old = ''ab'', new = ''b'', label = ''L''\<rparr>])]
        @ (''c.html'', [\<lparr>old = ''ab'', new = ''b'', label = ''L''\<rparr>])
        # [(''b.html'', [\<lparr>old = ''ab'', new = ''b'', label = ''L''\<rparr>])])
      [''a.html'' \<mapsto> Entry (Some ''xaby'') True, ''b.html'' \<mapsto> Entry (Some ''zz'') True]))
   = [''[EDIT] a.html -> L'', ''[WARN] Missing: c.html'', ''[OK]   b.html (no changes)'']"
    by (simp add: run_simps)
  ultimately show ?thesis by (rule conjI)
qed

lemma expected_report_form:
  assumes "\<forall>e. fs (fst t) = Some e \<longrightarrow> text_of e \<noteq> None"
  shows "report_form (fst t) (expected_report fs t)"
  using assms
  by (auto simp: report_form_def expected_report_def split: option.splits)

text \<open>
  Claim C2, as stated, fails: the two modes do not print the same.  On a file in which no
  rule matches, the check run prints the ``no changes'' report and stops, while the apply
  run prints one more line, the summary.
\<close>

theorem dry_run_parity_counterexample:
  "exit_of (main True
      [(''b.html'', [\<lparr>old = ''ab'', new = ''b'', label = ''L''\<rparr>])]
      [''b.html'' \<mapsto> Entry (Some ''zz'') True]) = Inr 0
   \<and> exit_of (main False
      [(''b.html'', [\<lparr>old = ''ab'', new = ''b'', label = ''L''\<rparr>])]
      [''b.html'' \<mapsto> Entry (Some ''zz'') True]) = Inr 0
   \<and> console (final_state (main True
      [(''b.html'', [\<lparr>old = ''ab'', new = ''b'', label = ''L''\<rparr>])]
      [''b.html'' \<mapsto> Entry (Some ''zz'') True])) = [''[OK]   b.html (no changes)'']
   \<and> console (final_state (main False
      [(''b.html'', [\<lparr>old = ''ab'', new = ''b'', label = ''L''\<rparr>])]
      [''b.html'' \<mapsto> Entry (Some ''zz'') True])) = [''[OK]   b.html (no changes)'', ''No changes applied.'']
   \<and> console (final_state (main True
      [(''b.html'', [\<lparr>old = ''ab'', new = ''b'', label = ''L''\<rparr>])]
      [''b.html'' \<mapsto> Entry (Some ''zz'') True]))
     \<noteq> console (final_state (main False
      [(''b.html'', [\<lparr>old = ''ab'', new = ''b'', label = ''L''\<rparr>])]
      [''b.html'' \<mapsto> Entry (Some ''zz'') True]))"
  by (simp add: run_simps)

text \<open>
  Claim C2, amended.  When an apply run on the files returns, the check run on the same
  files returns the same status, prints the same report for every target, with the same
  labels, and writes nothing; the apply run prints exactly those reports, followed by the
  summary line when no target had a matching rule.
\<close>

theorem dry_run_and_apply_report_alike:
  assumes "distinct (map fst targets)" and "main False targets fs = Inr (code, sa)"
  shows "\<exists>sc. main True targets fs = Inr (code, sc)
            \<and> files sc = fs \<and> written sc = []
            \<and> console sc = map (expected_report fs) targets
            \<and> console sa = console sc @ (if any_changed sc then [] else [summary_line])"
proof -
  obtain sa0 where a0: "process_targets False targets (initial_state fs) = Inr sa0"
    and sa: "sa = (if \<not> any_changed sa0 then sa0\<lparr>console := console sa0 @ [summary_line]\<rparr> else sa0)"
    and code: "code = 0"
    using assms(2) by (auto simp: main_outcome split: sum.splits)
  note a = console_of_run [OF assms(1) a0]
  have "\<forall>t \<in> set targets. \<forall>e. files (initial_state fs) (fst t) = Some e \<longrightarrow> text_of e \<noteq> None"
    using a by blast
  then obtain sc where c0: "process_targets True targets (initial_state fs) = Inr sc"
    using check_mode_returns by blast
  note c = console_of_run [OF assms(1) c0]
  have quiet: "files sc = fs" "written sc = []"
    using check_mode_writes_nothing [of targets "initial_state fs"] c0
    by (simp_all add: state_reached_def initial_state_def)
  have lines: "console sc = map (expected_report fs) targets" "console sa0 = console sc"
    using a c by (simp_all add: initial_state_def)
  have flag: "any_changed sa0 = any_changed sc"
    using a c by simp
  have "main True targets fs = Inr (code, sc)"
    using c0 code by (simp add: main_outcome)
  moreover have "console sa = console sc @ (if any_changed sc then [] else [summary_line])"
    using sa lines(2) flag by simp
  ultimately show ?thesis
    using quiet lines(1) by blast
qed

theorem dry_run_and_apply_report_alike_witness:
  "(\<exists>sa. main False
      [(''a.html'', [\<lparr>old = ''ab'', new = ''b'', label = ''L''\<rparr>]), (''c.html'', [\<lparr>old = ''ab'', new = ''b'', label = ''L''\<rparr>])]
      [''a.html'' \<mapsto> Entry (Some ''xaby'') True] = Inr (0, sa)
      \<and> console sa = [''[EDIT] a.html -> L'', ''[WARN] Missing: c.html''])
   \<and> (\<exists>sc. main True
      [(''a.html'', [\<lparr>old = ''ab'', new = ''b'', label = ''L''\<rparr>]), (''c.html'', [\<lparr>old = ''ab'', new = ''b'', label = ''L''\<rparr>])]
      [''a.html'' \<mapsto> Entry (Some ''xaby'') True] = Inr (0, sc)
      \<and> files sc = [''a.html'' \<mapsto> Entry (Some ''xaby'') True] \<and> written sc = []
      \<and> console sc = [''[EDIT] a.html -> L'', ''[WARN] Missing: c.html''])"
proof -
  have d: "distinct (map fst
      [(''a.html'', [\<lparr>old = ''ab'', new = ''b'', label = ''L''\<rparr>]), (''c.html'', [\<lparr>old = ''ab'', new = ''b'', label = ''L''\<rparr>])])"
    by simp
  obtain sa where m: "main False
      [(''a.html'', [\<lparr>old = ''ab'', new = ''b'', label = ''L''\<rparr>]), (''c.html'', [\<lparr>old = ''ab'', new = ''b'', label = ''L''\<rparr>])]
      [''a.html'' \<mapsto> Entry (Some ''xaby'') True] = Inr (0, sa)"
    and ca: "console sa = [''[EDIT] a.html -> L'', ''[WARN] Missing: c.html'']"
    by (simp add: run_simps)
  from dry_run_and_apply_report_alike [OF d m] obtain sc where "main True
      [(''a.html'', [\<lparr>old = ''ab'', new = ''b'', label = ''L''\<rparr>]), (''c.html'', [\<lparr>old = ''ab'', new = ''b'', label = ''L''\<rparr>])]
      [''a.html'' \<mapsto> Entry (Some ''xaby'') True] = Inr (0, sc)"
    and "files sc = [''a.html'' \<mapsto> Entry (Some ''xaby'') True]" and "written sc = []"
    and "console sa = console sc @ (if any_changed sc then [] else [summary_line])"
    by blast
  moreover from this(1) have "any_changed sc"
    by (auto simp: run_simps)
  ultimately show ?thesis
    using m ca by auto
qed

text \<open>
  Claim C3, as stated, fails: a check run in which no file changed prints its per-file
  reports and no summary line.
\<close>

theorem dry_run_summary_counterexample:
  "exit_of (main True
      [(''b.html'', [\<lparr>old = ''ab'', new = ''b'', label = ''L''\<rparr>]), (''c.html'', [\<lparr>old = ''ab'', new = ''b'', label = ''L''\<rparr>])]
      [''b.html'' \<mapsto> Entry (Some ''zz'') True]) = Inr 0
   \<and> \<not> any_changed (final_state (main True
      [(''b.html'', [\<lparr>old = ''ab'', new = ''b'', label = ''L''\<rparr>]), (''c.html'', [\<lparr>old = ''ab'', new = ''b'', label = ''L''\<rparr>])]
      [''b.html'' \<mapsto> Entry (Some ''zz'') True]))
   \<and> console (final_state (main True
      [(''b.html'', [\<lparr>old = ''ab'', new = ''b'', label = ''L''\<rparr>]), (''c.html'', [\<lparr>old = ''ab'', new = ''b'', label = ''L''\<rparr>])]
      [''b.html'' \<mapsto> Entry (Some ''zz'') True])) = [''[OK]   b.html (no changes)'', ''[WARN] Missing: c.html'']
   \<and> summary_line \<notin> set (console (final_state (main True
      [(''b.html'', [\<lparr>old = ''ab'', new = ''b'', label = ''L''\<rparr>]), (''c.html'', [\<lparr>old = ''ab'', new = ''b'', label = ''L''\<rparr>])]
      [''b.html'' \<mapsto> Entry (Some ''zz'') True])))"
  by (simp add: run_simps)

text \<open>
  Claim C3, amended.  A run that returns prints one report per target, in table order,
  each of one of the three forms (missing-file warning, unchanged, edited with labels);
  the summary line follows them exactly when the run is in apply mode and no target had a
  matching rule, and never in check mode.
\<close>

theorem summary_only_in_apply_mode:
  assumes "distinct (map fst targets)" and "main check targets fs = Inr (code, st)"
  shows "console st = map (expected_report fs) targets
           @ (if \<not> check \<and> \<not> (\<exists>t \<in> set targets. would_edit fs t) then [summary_line] else [])
       \<and> (\<forall>t \<in> set targets. report_form (fst t) (expected_report fs t))"
proof -
  obtain st0 where r0: "process_targets check targets (initial_state fs) = Inr st0"
    and st: "st = (if \<not> check \<and> \<not> any_changed st0
                    then st0\<lparr>console := console st0 @ [summary_line]\<rparr> else st0)"
    using assms(2) by (auto simp: main_outcome split: sum.splits)
  note r = console_of_run [OF assms(1) r0]
  have lines: "console st0 = map (expected_report fs) targets"
    using r by (simp add: initial_state_def)
  have flag: "any_changed st0 = (\<exists>t \<in> set targets. would_edit fs t)"
    using r by (simp add: initial_state_def)
  have "\<forall>t \<in> set targets. \<forall>e. fs (fst t) = Some e \<longrightarrow> text_of e \<noteq> None"
    using r by (simp add: initial_state_def)
  then have forms: "\<forall>t \<in> set targets. report_form (fst t) (expected_report fs t)"
    using expected_report_form by blast
  have "console st = map (expected_report fs) targets
           @ (if \<not> check \<and> \<not> (\<exists>t \<in> set targets. would_edit fs t) then [summary_line] else [])"
    using st lines flag by simp
  with forms show ?thesis by (rule conjI [rotated])
qed

theorem summary_only_in_apply_mode_witness:
  "\<exists>st. main False
      [(''b.html'', [\<lparr>old = ''ab'', new = ''b'', label = ''L''\<rparr>])]
      [''b.html'' \<mapsto> Entry (Some ''zz'') True] = Inr (0, st)
     \<and> console st = [''[OK]   b.html (no changes)'', ''No changes applied.'']"
proof -
  have d: "distinct (map fst
      [(''b.html'', [\<lparr>old = ''ab'', new = ''b'', label = ''L''\<rparr>])])"
    by simp
  obtain st where m: "main False
      [(''b.html'', [\<lparr>old = ''ab'', new = ''b'', label = ''L''\<rparr>])]
      [''b.html'' \<mapsto> Entry (Some ''zz'') True] = Inr (0, st)"
    by (simp add: run_simps)
  from summary_only_in_apply_mode [OF d m]
  have "console st = [''[OK]   b.html (no changes)'', ''No changes applied.'']"
    by (simp add: expected_report_def would_edit_def apply_replacements_def ok_line_def
        summary_line_def)
  with m show ?thesis by blast
qed

end
